theory Spec2Isabelle
  imports Main "HOL-Library.Sublist"
begin

section \<open>Data model\<close>

text \<open>
  The option type of \<^verbatim>\<open>shared/types\<close>: \<^verbatim>\<open>label\<close> and \<^verbatim>\<open>value\<close> are strings, \<^verbatim>\<open>disabled\<close> and
  \<^verbatim>\<open>description\<close> are optional (\<open>None\<close> is JavaScript's \<^verbatim>\<open>undefined\<close>).

  Options are JavaScript objects, and \<^verbatim>\<open>Array.prototype.indexOf\<close> compares objects by
  identity, not by their fields. The extra field \<open>oid\<close> stands for that identity: two
  records denote the same object exactly when they are equal as records, so two distinct
  objects with the same fields differ in \<open>oid\<close>. Options are never mutated by the code.

  Strings are \<open>char list\<close>; a \<open>char\<close> stands for one UTF-16 code unit in the
  range U+0000 to U+00FF, on which the string operations below are modelled exactly.
\<close>

record Option =
  label :: string
  "value" :: string
  disabled :: "bool option"
  description :: "string option"
  oid :: nat

text \<open>Truthiness of \<^verbatim>\<open>option.disabled\<close>: \<^verbatim>\<open>undefined\<close> and \<^verbatim>\<open>false\<close> are falsy.\<close>

definition is_disabled :: "Option \<Rightarrow> bool" where
  "is_disabled option = (disabled option = Some True)"

text \<open>A selection value of type \<^verbatim>\<open>Option | Option[]\<close>; \<^verbatim>\<open>undefined\<close> is \<open>None\<close> of
  \<open>selection option\<close>.\<close>

datatype selection = Single Option | Multi "Option list"

section \<open>String primitives\<close>

text \<open>White space and line terminators of ECMAScript below U+0100, as removed by
  \<^verbatim>\<open>String.prototype.trim\<close>: TAB, LF, VT, FF, CR, SPACE and NO-BREAK SPACE.\<close>

definition isWhiteSpace :: "char \<Rightarrow> bool" where
  "isWhiteSpace c = ((of_char c :: nat) \<in> {9, 10, 11, 12, 13, 32, 160})"

definition trim :: "string \<Rightarrow> string" where
  "trim s = rev (dropWhile isWhiteSpace (rev (dropWhile isWhiteSpace s)))"

text \<open>\<^verbatim>\<open>String.prototype.toLowerCase\<close> below U+0100: the letters A to Z and U+00C0 to
  U+00DE except the multiplication sign U+00D7 move up by 32, everything else stays.\<close>

definition toLowerCaseChar :: "char \<Rightarrow> char" where
  "toLowerCaseChar c =
     (let n = (of_char c :: nat) in
      if (65 \<le> n \<and> n \<le> 90) \<or> (192 \<le> n \<and> n \<le> 222 \<and> n \<noteq> 215)
      then char_of (n + 32) else c)"

definition toLowerCase :: "string \<Rightarrow> string" where
  "toLowerCase s = map toLowerCaseChar s"

text \<open>\<^verbatim>\<open>s.includes(q)\<close>: does \<open>q\<close> occur in \<open>s\<close> at some position.\<close>

fun str_includes :: "string \<Rightarrow> string \<Rightarrow> bool" where
  "str_includes [] q = (q = [])"
| "str_includes (c # s) q = (prefix q (c # s) \<or> str_includes s q)"

section \<open>Utilities\<close>

text \<open>\<^verbatim>\<open>filterOptions\<close>. The third disjunct is
  \<^verbatim>\<open>option.description?.toLowerCase().includes(lowercaseQuery)\<close>, which is \<^verbatim>\<open>undefined\<close>
  (falsy) when there is no description.\<close>

definition filterOptions :: "Option list \<Rightarrow> string \<Rightarrow> Option list" where
  "filterOptions options query =
     (if trim query = [] then options
      else
        let lowercaseQuery = toLowerCase query in
        filter
          (\<lambda>option.
             str_includes (toLowerCase (label option)) lowercaseQuery \<or>
             str_includes (toLowerCase (value option)) lowercaseQuery \<or>
             (case description option of
                None \<Rightarrow> False
              | Some d \<Rightarrow> str_includes (toLowerCase d) lowercaseQuery))
          options)"

text \<open>\<^verbatim>\<open>getSelectedOptionLabels\<close>. Objects and arrays are truthy, so \<^verbatim>\<open>!value\<close> holds
  for \<^verbatim>\<open>undefined\<close> only.\<close>

definition getSelectedOptionLabels :: "selection option \<Rightarrow> bool \<Rightarrow> string list" where
  "getSelectedOptionLabels v multiple =
     (case v of
        None \<Rightarrow> []
      | Some val \<Rightarrow>
          (case val of
             Multi opts \<Rightarrow> if multiple then map label opts else []
           | Single option \<Rightarrow> if \<not> multiple then [label option] else []))"

section \<open>Array primitives\<close>

text \<open>An array read \<^verbatim>\<open>xs[i]\<close>: outside the bounds the result is \<^verbatim>\<open>undefined\<close>, here
  \<open>None\<close>.\<close>

definition elem_at :: "'a list \<Rightarrow> int \<Rightarrow> 'a option" where
  "elem_at xs i = (if 0 \<le> i \<and> i < int (length xs) then Some (xs ! nat i) else None)"

text \<open>\<^verbatim>\<open>Array.prototype.findIndex\<close>: the callback receives the element and its index; the
  result is the first index accepted, or \<open>-1\<close>.\<close>

fun findIndex_from :: "('a \<Rightarrow> int \<Rightarrow> bool) \<Rightarrow> 'a list \<Rightarrow> int \<Rightarrow> int" where
  "findIndex_from P [] i = - 1"
| "findIndex_from P (x # xs) i = (if P x i then i else findIndex_from P xs (i + 1))"

definition findIndex :: "('a \<Rightarrow> int \<Rightarrow> bool) \<Rightarrow> 'a list \<Rightarrow> int" where
  "findIndex P xs = findIndex_from P xs 0"

text \<open>\<^verbatim>\<open>Array.prototype.indexOf\<close> on an array of objects: the first index holding the
  same object, or \<open>-1\<close>. The searched value may be \<^verbatim>\<open>undefined\<close>, which no element of
  an option array equals.\<close>

definition indexOf :: "'a list \<Rightarrow> 'a option \<Rightarrow> int" where
  "indexOf xs v = (case v of None \<Rightarrow> - 1 | Some x \<Rightarrow> findIndex (\<lambda>y _. y = x) xs)"

section \<open>Keyboard navigation\<close>

text \<open>The parts of the state updaters of \<^verbatim>\<open>useKeyboardNavigation\<close> for the arrow keys,
  named as in the source. \<open>prev\<close> is the highlighted index before the key.\<close>

definition availableOptions :: "Option list \<Rightarrow> Option list" where
  "availableOptions options = filter (\<lambda>option. \<not> is_disabled option) options"

definition currentIndex :: "Option list \<Rightarrow> int \<Rightarrow> int" where
  "currentIndex options prev =
     findIndex
       (\<lambda>_ index. indexOf options (elem_at (availableOptions options) index) = prev)
       (availableOptions options)"

definition nextIndex :: "Option list \<Rightarrow> int \<Rightarrow> int" where
  "nextIndex options prev =
     (if currentIndex options prev < int (length (availableOptions options)) - 1
      then currentIndex options prev + 1 else 0)"

definition prevIndex :: "Option list \<Rightarrow> int \<Rightarrow> int" where
  "prevIndex options prev =
     (if currentIndex options prev > 0
      then currentIndex options prev - 1 else int (length (availableOptions options)) - 1)"

definition arrowDown :: "Option list \<Rightarrow> int \<Rightarrow> int" where
  "arrowDown options prev =
     indexOf options (elem_at (availableOptions options) (nextIndex options prev))"

definition arrowUp :: "Option list \<Rightarrow> int \<Rightarrow> int" where
  "arrowUp options prev =
     indexOf options (elem_at (availableOptions options) (prevIndex options prev))"

text \<open>
  \<^verbatim>\<open>handleKeyDown\<close> of \<^verbatim>\<open>useKeyboardNavigation\<close>. The result is the new highlighted index
  and the callbacks invoked, in order. Reading a property of \<^verbatim>\<open>undefined\<close> throws a
  \<^verbatim>\<open>TypeError\<close>; the only property read on the result of an array read is
  \<^verbatim>\<open>option.disabled\<close> in the Enter/Space branch. \<^verbatim>\<open>preventDefault\<close> has no effect on
  the state and is left out.
\<close>

datatype callback = OnOpen | OnSelect Option | OnClose

datatype js_error = TypeError

definition handleKeyDown ::
  "Option list \<Rightarrow> bool \<Rightarrow> int \<Rightarrow> string \<Rightarrow> js_error + (int \<times> callback list)" where
  "handleKeyDown options isOpen highlightedIndex key =
     (if \<not> isOpen then
        (if key = ''ArrowDown'' \<or> key = ''ArrowUp'' \<or> key = ''Enter'' \<or> key = '' ''
         then Inr (highlightedIndex, [OnOpen])
         else Inr (highlightedIndex, []))
      else if key = ''ArrowDown'' then Inr (arrowDown options highlightedIndex, [])
      else if key = ''ArrowUp'' then Inr (arrowUp options highlightedIndex, [])
      else if key = ''Enter'' \<or> key = '' '' then
        (if highlightedIndex \<ge> 0 \<and> highlightedIndex < int (length options) then
           (case elem_at options highlightedIndex of
              None \<Rightarrow> Inl TypeError
            | Some option \<Rightarrow>
                if \<not> is_disabled option then Inr (highlightedIndex, [OnSelect option])
                else Inr (highlightedIndex, []))
         else Inr (highlightedIndex, []))
      else if key = ''Escape'' then Inr (highlightedIndex, [OnClose])
      else if key = ''Home'' then
        (let firstAvailable = findIndex (\<lambda>option _. \<not> is_disabled option) options in
         if firstAvailable \<noteq> - 1 then Inr (firstAvailable, [])
         else Inr (highlightedIndex, []))
      else if key = ''End'' then
        (if length (availableOptions options) > 0 then
           Inr (indexOf options
                  (elem_at (availableOptions options)
                     (int (length (availableOptions options)) - 1)), [])
         else Inr (highlightedIndex, []))
      else Inr (highlightedIndex, []))"

section \<open>Number primitives\<close>

text \<open>
  Pixel quantities (scroll offset, row height, container height) are taken to be
  integral and below \<open>2^53\<close> in absolute value, where the double-precision quotient
  has the same floor and ceiling as the exact one. \<^verbatim>\<open>Math.floor(a / b)\<close> and
  \<^verbatim>\<open>Math.ceil(a / b)\<close> are then the following, for \<open>b \<noteq> 0\<close> (for \<open>b = 0\<close> JavaScript
  yields an infinity or \<^verbatim>\<open>NaN\<close>, which the model does not represent: every statement
  below assumes a positive row height).
\<close>

definition floor_div :: "int \<Rightarrow> int \<Rightarrow> int" where
  "floor_div a b = a div b"

definition ceil_div :: "int \<Rightarrow> int \<Rightarrow> int" where
  "ceil_div a b = - ((- a) div b)"

text \<open>\<^verbatim>\<open>Array.prototype.slice(start, end)\<close> for integer arguments: a negative argument
  counts from the end of the array, and both are clamped to the array.\<close>

definition slice :: "'a list \<Rightarrow> int \<Rightarrow> int \<Rightarrow> 'a list" where
  "slice xs start fin =
     (let len = int (length xs);
          k = (if start < 0 then max (len + start) 0 else min start len);
          final = (if fin < 0 then max (len + fin) 0 else min fin len)
      in take (nat (final - k)) (drop (nat k) xs))"

section \<open>Virtual scrolling\<close>

text \<open>\<^verbatim>\<open>useVirtualScroll\<close>. The hook's state \<^verbatim>\<open>scrollTop\<close> is a parameter here, last; the
  result holds \<^verbatim>\<open>visibleItems\<close> (each item with its index), \<^verbatim>\<open>totalHeight\<close> and
  \<^verbatim>\<open>offsetY\<close>.\<close>

record 'a virtual_scroll =
  visibleItems :: "('a \<times> int) list"
  totalHeight :: int
  offsetY :: int

definition startIndex :: "int \<Rightarrow> int \<Rightarrow> int \<Rightarrow> int" where
  "startIndex scrollTop itemHeight overscan =
     max 0 (floor_div scrollTop itemHeight - overscan)"

definition endIndex :: "nat \<Rightarrow> int \<Rightarrow> int \<Rightarrow> int \<Rightarrow> int \<Rightarrow> int" where
  "endIndex n scrollTop containerHeight itemHeight overscan =
     min (int n - 1) (ceil_div (scrollTop + containerHeight) itemHeight + overscan)"

definition useVirtualScroll ::
  "'a list \<Rightarrow> int \<Rightarrow> int \<Rightarrow> int \<Rightarrow> int \<Rightarrow> 'a virtual_scroll" where
  "useVirtualScroll items itemHeight containerHeight overscan scrollTop =
     (let start = startIndex scrollTop itemHeight overscan;
          fin = endIndex (length items) scrollTop containerHeight itemHeight overscan;
          sliced = slice items start (fin + 1)
      in \<lparr>visibleItems =
            map (\<lambda>(item, index). (item, start + int index)) (zip sliced [0..<length sliced]),
          totalHeight = int (length items) * itemHeight,
          offsetY = start * itemHeight\<rparr>)"

section \<open>The dropdown component\<close>

text \<open>
  The state and the event handlers of \<^verbatim>\<open>InputDropdown\<close>. Only what decides the state
  is modelled: focus, announcements, timers and styling are left out.

  The value held by the component is an option, an array of options, or the empty
  object \<^verbatim>\<open>{} as Option\<close> that single mode starts from and that clearing produces.
\<close>

datatype current = EmptyObject | Value selection

text \<open>The props that the handlers read. \<open>p_value = None\<close> is an uncontrolled component
  (\<^verbatim>\<open>value === undefined\<close>); \<open>p_enableVirtualScroll\<close> and \<open>p_maxHeight\<close> are \<open>None\<close>
  when the prop is not given.\<close>

record props =
  p_options :: "Option list"
  p_value :: "selection option"
  p_multiple :: bool
  p_disabled :: bool
  p_searchable :: bool
  p_loading :: bool
  p_closeOnSelect :: bool
  p_enableVirtualScroll :: "bool option"
  p_maxHeight :: "int option"

text \<open>The state: the three \<^verbatim>\<open>useState\<close> cells of the component and the one of
  \<^verbatim>\<open>useKeyboardNavigation\<close>.\<close>

record state =
  isOpen :: bool
  searchQuery :: string
  internalValue :: current
  highlightedIndex :: int

definition initial_state :: "bool \<Rightarrow> state" where
  "initial_state multiple =
     \<lparr>isOpen = False, searchQuery = [],
      internalValue = (if multiple then Value (Multi []) else EmptyObject),
      highlightedIndex = - 1\<rparr>"

definition currentValue :: "props \<Rightarrow> state \<Rightarrow> current" where
  "currentValue p s = (case p_value p of Some v \<Rightarrow> Value v | None \<Rightarrow> internalValue s)"

definition filteredOptions :: "props \<Rightarrow> state \<Rightarrow> Option list" where
  "filteredOptions p s =
     (if p_loading p then []
      else if p_searchable p then filterOptions (p_options p) (searchQuery s)
      else p_options p)"

definition handleOpen :: "props \<Rightarrow> state \<Rightarrow> state" where
  "handleOpen p s = (if p_disabled p then s else s\<lparr>isOpen := True\<rparr>)"

definition handleClose :: "state \<Rightarrow> state" where
  "handleClose s = s\<lparr>isOpen := False, searchQuery := []\<rparr>"

text \<open>\<^verbatim>\<open>handleSelect\<close>: the new state and the values passed to \<^verbatim>\<open>onChange\<close>. The test
  \<^verbatim>\<open>multiple && Array.isArray(currentValue)\<close> is the first case with its inner
  \<^verbatim>\<open>if\<close>.\<close>

fun handleSelect :: "props \<Rightarrow> state \<Rightarrow> Option \<Rightarrow> state \<times> current list" where
  "handleSelect p s option =
     (if is_disabled option then (s, [])
      else
        let (newValue, s1) =
          (case currentValue p s of
             Value (Multi cur) \<Rightarrow>
               if p_multiple p then
                 (let isSelected = list_ex (\<lambda>item. value item = value option) cur in
                  (Value (Multi (if isSelected
                                 then filter (\<lambda>item. value item \<noteq> value option) cur
                                 else cur @ [option])), s))
               else (Value (Single option), if p_closeOnSelect p then handleClose s else s)
           | _ \<Rightarrow> (Value (Single option), if p_closeOnSelect p then handleClose s else s));
          s2 = (if p_value p = None then s1\<lparr>internalValue := newValue\<rparr> else s1)
        in (s2, [newValue]))"

definition handleClear :: "props \<Rightarrow> state \<Rightarrow> state \<times> current list" where
  "handleClear p s =
     (let newValue = (if p_multiple p then Value (Multi []) else EmptyObject);
          s1 = (if p_value p = None then s\<lparr>internalValue := newValue\<rparr> else s)
      in (s1\<lparr>searchQuery := []\<rparr>, [newValue]))"

definition handleTriggerKeyDown :: "props \<Rightarrow> state \<Rightarrow> string \<Rightarrow> state" where
  "handleTriggerKeyDown p s key =
     (if p_disabled p then s
      else if key = ''Enter'' \<or> key = '' '' \<or> key = ''ArrowDown'' \<or> key = ''ArrowUp''
        then handleOpen p s
      else if key = ''Escape'' then (if isOpen s then handleClose s else s)
      else s)"

text \<open>The component passes \<^verbatim>\<open>handleSelect\<close>, \<^verbatim>\<open>handleClose\<close> and \<^verbatim>\<open>handleOpen\<close> to the
  keyboard hook, together with the filtered options.\<close>

fun run_callback :: "props \<Rightarrow> state \<times> current list \<Rightarrow> callback \<Rightarrow> state \<times> current list" where
  "run_callback p (s, out) OnOpen = (handleOpen p s, out)"
| "run_callback p (s, out) OnClose = (handleClose s, out)"
| "run_callback p (s, out) (OnSelect option) =
     (let (s', out') = handleSelect p s option in (s', out @ out'))"

definition keyDown :: "props \<Rightarrow> state \<Rightarrow> string \<Rightarrow> js_error + (state \<times> current list)" where
  "keyDown p s key =
     (case handleKeyDown (filteredOptions p s) (isOpen s) (highlightedIndex s) key of
        Inl e \<Rightarrow> Inl e
      | Inr (hi, callbacks) \<Rightarrow>
          Inr (foldl (run_callback p) (s\<lparr>highlightedIndex := hi\<rparr>, []) callbacks))"

text \<open>
  The events of the component: a key on the document (the hook's listener), a key or a
  click on the trigger, a click outside, a click on an option (\<^verbatim>\<open>OptionItem\<close>, which
  also serves Enter and Space on the option), the remove button of a tag
  (\<^verbatim>\<open>MultiSelectTags\<close>), the clear button, and typing in the search input.
\<close>

datatype event =
    KeyDown string
  | TriggerKeyDown string
  | TriggerClick
  | ClickOutside
  | OptionClick Option
  | TagRemove Option
  | ClearClick
  | SearchChange string

fun dispatch :: "props \<Rightarrow> state \<Rightarrow> event \<Rightarrow> js_error + (state \<times> current list)" where
  "dispatch p s (KeyDown key) = keyDown p s key"
| "dispatch p s (TriggerKeyDown key) = Inr (handleTriggerKeyDown p s key, [])"
| "dispatch p s TriggerClick = Inr (handleOpen p s, [])"
| "dispatch p s ClickOutside = Inr (handleClose s, [])"
| "dispatch p s (OptionClick option) =
     (if \<not> is_disabled option then Inr (handleSelect p s option) else Inr (s, []))"
| "dispatch p s (TagRemove option) = Inr (handleSelect p s option)"
| "dispatch p s ClearClick = Inr (handleClear p s)"
| "dispatch p s (SearchChange q) = Inr (s\<lparr>searchQuery := q\<rparr>, [])"

text \<open>The effect of \<^verbatim>\<open>useKeyboardNavigation\<close> with dependency \<^verbatim>\<open>[isOpen]\<close>: it runs after
  a render in which \<^verbatim>\<open>isOpen\<close> changed, and resets the highlight when the list is then
  closed. \<open>s\<close> is the state before the handler, \<open>s'\<close> the state after it.\<close>

definition effects :: "state \<Rightarrow> state \<Rightarrow> state" where
  "effects s s' =
     (if isOpen s' \<noteq> isOpen s \<and> \<not> isOpen s'
      then s'\<lparr>highlightedIndex := - 1\<rparr> else s')"

text \<open>One step: a handler runs to its end, the component renders and the effect runs,
  before the next event is handled. The props may differ from step to step.\<close>

definition step :: "props \<Rightarrow> state \<Rightarrow> event \<Rightarrow> js_error + (state \<times> current list)" where
  "step p s e =
     (case dispatch p s e of
        Inl err \<Rightarrow> Inl err
      | Inr (s', out) \<Rightarrow> Inr (effects s s', out))"

fun exec :: "state \<Rightarrow> (props \<times> event) list \<Rightarrow> js_error + state" where
  "exec s [] = Inr s"
| "exec s ((p, e) # rest) =
     (case step p s e of Inl err \<Rightarrow> Inl err | Inr (s', out) \<Rightarrow> exec s' rest)"

text \<open>The constants and computed values of the component that drive virtual
  scrolling, and the options that \<^verbatim>\<open>renderVirtualItems\<close> renders.\<close>

definition ITEM_HEIGHT :: int where
  "ITEM_HEIGHT = 40"

definition DEFAULT_MAX_HEIGHT :: int where
  "DEFAULT_MAX_HEIGHT = 240"

definition LARGE_LIST_THRESHOLD :: nat where
  "LARGE_LIST_THRESHOLD = 100"

definition maxHeight :: "props \<Rightarrow> int" where
  "maxHeight p = (case p_maxHeight p of None \<Rightarrow> DEFAULT_MAX_HEIGHT | Some m \<Rightarrow> m)"

definition shouldUseVirtualScroll :: "props \<Rightarrow> state \<Rightarrow> bool" where
  "shouldUseVirtualScroll p s =
     (case p_enableVirtualScroll p of
        Some b \<Rightarrow> b
      | None \<Rightarrow> length (filteredOptions p s) > LARGE_LIST_THRESHOLD)"

definition dropdownHeight :: "props \<Rightarrow> state \<Rightarrow> int" where
  "dropdownHeight p s = min (maxHeight p) (int (length (filteredOptions p s)) * ITEM_HEIGHT)"

definition virtualScrollProps :: "props \<Rightarrow> state \<Rightarrow> int \<Rightarrow> Option virtual_scroll" where
  "virtualScrollProps p s scrollTop =
     useVirtualScroll (filteredOptions p s) ITEM_HEIGHT (dropdownHeight p s) 5 scrollTop"

definition renderVirtualItems :: "props \<Rightarrow> state \<Rightarrow> int \<Rightarrow> Option list" where
  "renderVirtualItems p s scrollTop =
     (if \<not> shouldUseVirtualScroll p s then filteredOptions p s
      else map fst (visibleItems (virtualScrollProps p s scrollTop)))"

section \<open>Specification-side notions\<close>

text \<open>Following the words of the specification: \<open>q\<close> is a case-insensitive substring
  of \<open>s\<close>.\<close>

definition ci_substring :: "string \<Rightarrow> string \<Rightarrow> bool" where
  "ci_substring q s = (\<exists>pre post. toLowerCase s = pre @ toLowerCase q @ post)"

text \<open>An option matches a query when its label, value or description contains it.\<close>

definition matches_query :: "string \<Rightarrow> Option \<Rightarrow> bool" where
  "matches_query q option =
     (ci_substring q (label option) \<or> ci_substring q (value option) \<or>
      (\<exists>d. description option = Some d \<and> ci_substring q d))"

text \<open>Index \<open>i\<close> points at an option of the list that is not disabled.\<close>

definition enabled_at :: "Option list \<Rightarrow> int \<Rightarrow> bool" where
  "enabled_at options i =
     (0 \<le> i \<and> i < int (length options) \<and> \<not> is_disabled (options ! nat i))"

text \<open>The first and the last non-disabled option.\<close>

definition first_enabled :: "Option list \<Rightarrow> int \<Rightarrow> bool" where
  "first_enabled options j =
     (enabled_at options j \<and> (\<forall>k. k < j \<longrightarrow> \<not> enabled_at options k))"

definition last_enabled :: "Option list \<Rightarrow> int \<Rightarrow> bool" where
  "last_enabled options j =
     (enabled_at options j \<and> (\<forall>k. j < k \<longrightarrow> \<not> enabled_at options k))"

text \<open>\<open>j\<close> is the next non-disabled option after \<open>prev\<close> in list order, wrapping to the
  first one when none follows; and the mirror image for the previous one.\<close>

definition next_enabled :: "Option list \<Rightarrow> int \<Rightarrow> int \<Rightarrow> bool" where
  "next_enabled options prev j =
     (enabled_at options j \<and>
      (if \<exists>k. prev < k \<and> enabled_at options k
       then prev < j \<and> (\<forall>k. prev < k \<and> k < j \<longrightarrow> \<not> enabled_at options k)
       else \<forall>k. k < j \<longrightarrow> \<not> enabled_at options k))"

definition prev_enabled :: "Option list \<Rightarrow> int \<Rightarrow> int \<Rightarrow> bool" where
  "prev_enabled options prev j =
     (enabled_at options j \<and>
      (if \<exists>k. k < prev \<and> enabled_at options k
       then j < prev \<and> (\<forall>k. j < k \<and> k < prev \<longrightarrow> \<not> enabled_at options k)
       else \<forall>k. j < k \<longrightarrow> \<not> enabled_at options k))"

text \<open>Row \<open>j\<close> occupies the pixels from \<open>j * itemHeight\<close> up to, not including,
  \<open>(j + 1) * itemHeight\<close>; it intersects the visible scroll range, which goes from
  \<open>scrollTop\<close> to \<open>scrollTop + containerHeight\<close>.\<close>

definition row_visible :: "int \<Rightarrow> int \<Rightarrow> int \<Rightarrow> int \<Rightarrow> bool" where
  "row_visible itemHeight scrollTop containerHeight j =
     (j * itemHeight \<le> scrollTop + containerHeight \<and> scrollTop < (j + 1) * itemHeight)"

text \<open>The selection after \<^verbatim>\<open>handleSelect\<close>: the value it passes to \<^verbatim>\<open>onChange\<close>, or the
  current value when it passes none. An uncontrolled component holds this value next;
  a controlled one holds it when its parent passes the value back.\<close>

definition selection_after :: "props \<Rightarrow> state \<Rightarrow> Option \<Rightarrow> current" where
  "selection_after p s option =
     (case snd (handleSelect p s option) of [] \<Rightarrow> currentValue p s | v # _ \<Rightarrow> v)"

text \<open>The invariant of the component: a closed list has no highlight.\<close>

definition closed_no_highlight :: "state \<Rightarrow> bool" where
  "closed_no_highlight s = (isOpen s \<or> highlightedIndex s = - 1)"

text \<open>The indices of the non-disabled options, in list order.\<close>

definition enabled_indices :: "Option list \<Rightarrow> nat list" where
  "enabled_indices options = filter (\<lambda>i. \<not> is_disabled (options ! i)) [0..<length options]"

section \<open>Example inputs\<close>

text \<open>Three options, the second one disabled, and an uncontrolled multi-select
  component showing them.\<close>

definition apple :: Option where
  "apple = \<lparr>label = ''Apple'', value = ''apple'', disabled = None,
            description = Some ''A red fruit'', oid = 0\<rparr>"

definition banana :: Option where
  "banana = \<lparr>label = ''Banana'', value = ''banana'', disabled = Some True,
             description = None, oid = 1\<rparr>"

definition cherry :: Option where
  "cherry = \<lparr>label = ''Cherry'', value = ''cherry'', disabled = Some False,
             description = None, oid = 2\<rparr>"

definition example_options :: "Option list" where
  "example_options = [apple, banana, cherry]"

definition example_props :: props where
  "example_props =
     \<lparr>p_options = example_options, p_value = None, p_multiple = True, p_disabled = False,
      p_searchable = True, p_loading = False, p_closeOnSelect = True,
      p_enableVirtualScroll = None, p_maxHeight = None\<rparr>"

text \<open>A list of \<open>n\<close> distinct options, and a component showing it under a given
  \<^verbatim>\<open>maxHeight\<close>.\<close>

definition many_options :: "nat \<Rightarrow> Option list" where
  "many_options n =
     map (\<lambda>i. \<lparr>label = ''Option'', value = ''option'', disabled = None,
                description = None, oid = i\<rparr>) [0..<n]"

definition large_props :: "nat \<Rightarrow> int \<Rightarrow> props" where
  "large_props n m =
     \<lparr>p_options = many_options n, p_value = None, p_multiple = False, p_disabled = False,
      p_searchable = True, p_loading = False, p_closeOnSelect = True,
      p_enableVirtualScroll = None, p_maxHeight = Some m\<rparr>"

section \<open>Filtering\<close>

lemma includes_iff: "str_includes s q \<longleftrightarrow> (\<exists>pre post. s = pre @ q @ post)"
proof (induction s)
  case Nil
  then show ?case by auto
next
  case (Cons c s)
  show ?case
  proof
    assume "str_includes (c # s) q"
    then consider "prefix q (c # s)" | "str_includes s q" by auto
    then show "\<exists>pre post. c # s = pre @ q @ post"
    proof cases
      case 1
      then obtain post where "c # s = q @ post" by (auto simp: prefix_def)
      then have "c # s = [] @ q @ post" by simp
      then show ?thesis by blast
    next
      case 2
      with Cons.IH obtain pre post where "s = pre @ q @ post" by blast
      then have "c # s = (c # pre) @ q @ post" by simp
      then show ?thesis by blast
    qed
  next
    assume "\<exists>pre post. c # s = pre @ q @ post"
    then obtain pre post where eq: "c # s = pre @ q @ post" by blast
    show "str_includes (c # s) q"
    proof (cases pre)
      case Nil
      with eq have "prefix q (c # s)" by (simp add: prefix_def)
      then show ?thesis by simp
    next
      case (Cons a pre')
      with eq have "s = pre' @ q @ post" by simp
      with Cons.IH have "str_includes s q" by blast
      then show ?thesis by simp
    qed
  qed
qed

lemma includes_ci_substring:
  "str_includes (toLowerCase s) (toLowerCase q) \<longleftrightarrow> ci_substring q s"
  by (simp add: includes_iff ci_substring_def)

lemma trim_empty_iff: "trim s = [] \<longleftrightarrow> (\<forall>c \<in> set s. isWhiteSpace c)"
proof -
  have "trim s = [] \<longleftrightarrow> dropWhile isWhiteSpace (rev (dropWhile isWhiteSpace s)) = []"
    by (simp add: trim_def)
  also have "\<dots> \<longleftrightarrow> (\<forall>c \<in> set (dropWhile isWhiteSpace s). isWhiteSpace c)"
    by simp
  also have "\<dots> \<longleftrightarrow> (\<forall>c \<in> set s. isWhiteSpace c)"
  proof
    assume all: "\<forall>c \<in> set (dropWhile isWhiteSpace s). isWhiteSpace c"
    have "dropWhile isWhiteSpace s = []"
    proof (rule ccontr)
      assume ne: "dropWhile isWhiteSpace s \<noteq> []"
      then have "\<not> isWhiteSpace (hd (dropWhile isWhiteSpace s))"
        by (rule hd_dropWhile)
      moreover from ne have "hd (dropWhile isWhiteSpace s) \<in> set (dropWhile isWhiteSpace s)"
        by (rule hd_in_set)
      ultimately show False using all by blast
    qed
    then show "\<forall>c \<in> set s. isWhiteSpace c"
      by simp
  next
    assume "\<forall>c \<in> set s. isWhiteSpace c"
    then show "\<forall>c \<in> set (dropWhile isWhiteSpace s). isWhiteSpace c"
      by (blast dest: set_dropWhileD)
  qed
  finally show ?thesis .
qed

lemma filterOptions_matches:
  "trim query \<noteq> [] \<Longrightarrow> filterOptions options query = filter (matches_query query) options"
proof -
  assume ne: "trim query \<noteq> []"
  have "(str_includes (toLowerCase (label x)) (toLowerCase query) \<or>
         str_includes (toLowerCase (value x)) (toLowerCase query) \<or>
         (case description x of None \<Rightarrow> False
          | Some d \<Rightarrow> str_includes (toLowerCase d) (toLowerCase query)))
        = matches_query query x" for x
    by (cases "description x") (simp_all add: matches_query_def includes_ci_substring)
  with ne show ?thesis
    by (simp add: filterOptions_def)
qed

text \<open>
  Claim C1, as amended. For every option list and every query that is not made of white
  space only, filtering returns exactly the options whose label, value or description
  contains the query as a case-insensitive substring, in their original order; and the
  empty query returns all options unchanged.
\<close>

theorem filterOptions_exact:
  "(trim query \<noteq> [] \<longrightarrow>
      filterOptions options query = filter (matches_query query) options) \<and>
   filterOptions options [] = options"
proof
  show "trim query \<noteq> [] \<longrightarrow>
          filterOptions options query = filter (matches_query query) options"
    by (simp add: filterOptions_matches)
  show "filterOptions options [] = options"
    by (simp add: filterOptions_def trim_def)
qed

theorem filterOptions_exact_witness:
  "trim ''aN'' \<noteq> [] \<and>
   filterOptions
     [\<lparr>label = ''Banana'', value = ''b'', disabled = None, description = None, oid = 0\<rparr>,
      \<lparr>label = ''Fig'', value = ''f'', disabled = None, description = Some ''Sweet'', oid = 1\<rparr>]
     ''aN''
   = filter (matches_query ''aN'')
     [\<lparr>label = ''Banana'', value = ''b'', disabled = None, description = None, oid = 0\<rparr>,
      \<lparr>label = ''Fig'', value = ''f'', disabled = None, description = Some ''Sweet'', oid = 1\<rparr>] \<and>
   filterOptions
     [\<lparr>label = ''Banana'', value = ''b'', disabled = None, description = None, oid = 0\<rparr>,
      \<lparr>label = ''Fig'', value = ''f'', disabled = None, description = Some ''Sweet'', oid = 1\<rparr>]
     ''aN''
   = [\<lparr>label = ''Banana'', value = ''b'', disabled = None, description = None, oid = 0\<rparr>]"
proof -
  have ne: "trim ''aN'' \<noteq> []" by code_simp
  have run: "filterOptions
     [\<lparr>label = ''Banana'', value = ''b'', disabled = None, description = None, oid = 0\<rparr>,
      \<lparr>label = ''Fig'', value = ''f'', disabled = None, description = Some ''Sweet'', oid = 1\<rparr>]
     ''aN''
   = [\<lparr>label = ''Banana'', value = ''b'', disabled = None, description = None, oid = 0\<rparr>]"
    by code_simp
  from ne run filterOptions_exact [of "''aN''"
     "[\<lparr>label = ''Banana'', value = ''b'', disabled = None, description = None, oid = 0\<rparr>,
      \<lparr>label = ''Fig'', value = ''f'', disabled = None, description = Some ''Sweet'', oid = 1\<rparr>]"]
  show ?thesis by simp
qed

text \<open>
  Claim C1 as stated fails: a query of one space is not contained in any field of the
  option below, yet the option is returned.
\<close>

theorem filterOptions_whitespace_counterexample:
  "filterOptions
     [\<lparr>label = ''a'', value = ''a'', disabled = None, description = None, oid = 0\<rparr>] '' ''
     = [\<lparr>label = ''a'', value = ''a'', disabled = None, description = None, oid = 0\<rparr>] \<and>
   \<not> matches_query '' ''
       \<lparr>label = ''a'', value = ''a'', disabled = None, description = None, oid = 0\<rparr>"
proof
  show "filterOptions
     [\<lparr>label = ''a'', value = ''a'', disabled = None, description = None, oid = 0\<rparr>] '' ''
     = [\<lparr>label = ''a'', value = ''a'', disabled = None, description = None, oid = 0\<rparr>]"
    by code_simp
  have "\<not> str_includes (toLowerCase ''a'') (toLowerCase '' '')" by code_simp
  then have "\<not> ci_substring '' '' ''a''"
    using includes_ci_substring [of "''a''" "'' ''"] by blast
  then show "\<not> matches_query '' ''
       \<lparr>label = ''a'', value = ''a'', disabled = None, description = None, oid = 0\<rparr>"
    by (simp add: matches_query_def)
qed

text \<open>
  Claim C6. Filtering is idempotent: filtering the output again with the same query
  returns that output.
\<close>

theorem filterOptions_idempotent:
  "filterOptions (filterOptions options query) query = filterOptions options query"
  by (simp add: filterOptions_def)

text \<open>
  Claim C9. A query made only of white-space characters returns the option list
  unchanged.
\<close>

theorem filterOptions_whitespace_query:
  "(\<forall>c \<in> set query. isWhiteSpace c) \<Longrightarrow> filterOptions options query = options"
  by (simp add: filterOptions_def trim_empty_iff)

theorem filterOptions_whitespace_query_witness:
  "isWhiteSpace (CHR '' '') \<and> isWhiteSpace (CHR 0x09) \<and> isWhiteSpace (CHR 0xA0) \<and>
   filterOptions
     [\<lparr>label = ''a'', value = ''a'', disabled = None, description = None, oid = 0\<rparr>]
     [CHR '' '', CHR 0x09, CHR 0xA0]
   = [\<lparr>label = ''a'', value = ''a'', disabled = None, description = None, oid = 0\<rparr>]"
proof -
  have ws: "\<forall>c \<in> set [CHR '' '', CHR 0x09, CHR 0xA0]. isWhiteSpace c"
    by (simp add: isWhiteSpace_def)
  from ws filterOptions_whitespace_query [OF ws] show ?thesis by simp
qed

section \<open>Selected labels\<close>

text \<open>
  Claim C10. An absent value and a value whose shape disagrees with the mode flag give
  the empty list; when the shapes agree the labels come in the order of the selection.
\<close>

theorem getSelectedOptionLabels_shapes:
  "getSelectedOptionLabels None multiple = [] \<and>
   getSelectedOptionLabels (Some (Multi opts)) False = [] \<and>
   getSelectedOptionLabels (Some (Single option)) True = [] \<and>
   getSelectedOptionLabels (Some (Multi opts)) True = map label opts \<and>
   getSelectedOptionLabels (Some (Single option)) False = [label option]"
  by (simp add: getSelectedOptionLabels_def)

section \<open>Keyboard navigation: the arrow keys\<close>

lemma findIndex_from_cases:
  "(findIndex_from P xs k = - 1 \<and> (\<forall>j<length xs. \<not> P (xs ! j) (k + int j))) \<or>
   (\<exists>j<length xs. findIndex_from P xs k = k + int j \<and> P (xs ! j) (k + int j) \<and>
       (\<forall>j'<j. \<not> P (xs ! j') (k + int j')))"
proof (induction xs arbitrary: k)
  case Nil
  then show ?case by simp
next
  case (Cons x xs)
  show ?case
  proof (cases "P x k")
    case True
    then have "findIndex_from P (x # xs) k = k + int 0 \<and> P ((x # xs) ! 0) (k + int 0) \<and>
       (\<forall>j'<0. \<not> P ((x # xs) ! j') (k + int j'))" by simp
    then show ?thesis by blast
  next
    case False
    from Cons.IH [of "k + 1"] show ?thesis
    proof
      assume a: "findIndex_from P xs (k + 1) = - 1 \<and>
        (\<forall>j<length xs. \<not> P (xs ! j) (k + 1 + int j))"
      have "\<not> P ((x # xs) ! j) (k + int j)" if "j < length (x # xs)" for j
      proof (cases j)
        case 0
        with False show ?thesis by simp
      next
        case (Suc j')
        with that a have "\<not> P (xs ! j') (k + 1 + int j')" by simp
        with Suc show ?thesis by (simp add: algebra_simps)
      qed
      with a False show ?thesis by simp
    next
      assume "\<exists>j<length xs. findIndex_from P xs (k + 1) = k + 1 + int j \<and>
        P (xs ! j) (k + 1 + int j) \<and> (\<forall>j'<j. \<not> P (xs ! j') (k + 1 + int j'))"
      then obtain j where j: "j < length xs" "findIndex_from P xs (k + 1) = k + 1 + int j"
        "P (xs ! j) (k + 1 + int j)" "\<forall>j'<j. \<not> P (xs ! j') (k + 1 + int j')" by blast
      have "\<not> P ((x # xs) ! j') (k + int j')" if "j' < Suc j" for j'
      proof (cases j')
        case 0
        with False show ?thesis by simp
      next
        case (Suc i)
        with that j(4) have "\<not> P (xs ! i) (k + 1 + int i)" by simp
        with Suc show ?thesis by (simp add: algebra_simps)
      qed
      moreover have "findIndex_from P (x # xs) k = k + int (Suc j)"
        using False j(2) by simp
      moreover have "P ((x # xs) ! Suc j) (k + int (Suc j))"
        using j(3) by (simp add: algebra_simps)
      moreover have "Suc j < length (x # xs)" using j(1) by simp
      ultimately show ?thesis by blast
    qed
  qed
qed

lemma findIndex_cases:
  "(findIndex P xs = - 1 \<and> (\<forall>j<length xs. \<not> P (xs ! j) (int j))) \<or>
   (\<exists>j<length xs. findIndex P xs = int j \<and> P (xs ! j) (int j) \<and>
       (\<forall>j'<j. \<not> P (xs ! j') (int j')))"
  using findIndex_from_cases [of P xs 0] by (simp add: findIndex_def)

lemma indexOf_nth:
  assumes "distinct xs" "i < length xs"
  shows "indexOf xs (Some (xs ! i)) = int i"
proof -
  let ?P = "\<lambda>y (_::int). y = xs ! i"
  from findIndex_cases [of ?P xs]
  show ?thesis
  proof
    assume "findIndex ?P xs = - 1 \<and> (\<forall>j<length xs. \<not> ?P (xs ! j) (int j))"
    with assms(2) show ?thesis by blast
  next
    assume "\<exists>j<length xs. findIndex ?P xs = int j \<and> ?P (xs ! j) (int j) \<and>
       (\<forall>j'<j. \<not> ?P (xs ! j') (int j'))"
    then obtain j where j: "j < length xs" "findIndex ?P xs = int j" "xs ! j = xs ! i" by blast
    from assms j(1,3) have "j = i" by (simp add: nth_eq_iff_index_eq)
    with j(2) show ?thesis by (simp add: indexOf_def)
  qed
qed

lemma availableOptions_map:
  "availableOptions options = map (\<lambda>i. options ! i) (enabled_indices options)"
proof -
  have "filter (\<lambda>option. \<not> is_disabled option) (map (\<lambda>i. options ! i) [0..<length options])
        = map (\<lambda>i. options ! i) (enabled_indices options)"
    by (simp add: filter_map enabled_indices_def comp_def)
  then show ?thesis by (simp add: availableOptions_def map_nth)
qed

lemma enabled_indices_sorted: "sorted_wrt (<) (enabled_indices options)"
  by (simp add: enabled_indices_def sorted_wrt_filter)

lemma enabled_indices_set:
  "k \<in> set (enabled_indices options) \<longleftrightarrow> k < length options \<and> \<not> is_disabled (options ! k)"
  by (auto simp: enabled_indices_def)

lemma enabled_indices_distinct: "distinct (enabled_indices options)"
  by (simp add: enabled_indices_def)

lemma enabled_at_iff:
  "enabled_at options i \<longleftrightarrow> (\<exists>k \<in> set (enabled_indices options). i = int k)"
proof
  assume "enabled_at options i"
  then have "nat i \<in> set (enabled_indices options)" "i = int (nat i)"
    by (auto simp: enabled_at_def enabled_indices_set)
  then show "\<exists>k \<in> set (enabled_indices options). i = int k" by blast
next
  assume "\<exists>k \<in> set (enabled_indices options). i = int k"
  then show "enabled_at options i"
    by (auto simp: enabled_at_def enabled_indices_set)
qed

lemma available_length: "length (availableOptions options) = length (enabled_indices options)"
  by (simp add: availableOptions_map)

lemma available_indexOf:
  assumes "distinct options" "j < length (enabled_indices options)"
  shows "indexOf options (elem_at (availableOptions options) (int j))
           = int (enabled_indices options ! j)"
proof -
  from assms(2) have "enabled_indices options ! j \<in> set (enabled_indices options)"
    by simp
  then have lt: "enabled_indices options ! j < length options"
    by (simp add: enabled_indices_set)
  from assms(2) have "elem_at (availableOptions options) (int j)
      = Some (options ! (enabled_indices options ! j))"
    by (simp add: elem_at_def availableOptions_map)
  with assms(1) lt show ?thesis by (simp add: indexOf_nth)
qed

lemma currentIndex_cases:
  assumes "distinct options"
  shows "(currentIndex options prev = - 1 \<and>
            (\<forall>j<length (enabled_indices options). int (enabled_indices options ! j) \<noteq> prev)) \<or>
         (\<exists>j<length (enabled_indices options). currentIndex options prev = int j \<and>
            int (enabled_indices options ! j) = prev)"
proof -
  let ?P = "\<lambda>(_::Option) index.
     indexOf options (elem_at (availableOptions options) index) = prev"
  from findIndex_cases [of ?P "availableOptions options"]
  show ?thesis
  proof
    assume "findIndex ?P (availableOptions options) = - 1 \<and>
      (\<forall>j<length (availableOptions options). \<not> ?P (availableOptions options ! j) (int j))"
    with assms show ?thesis
      by (simp add: currentIndex_def available_length available_indexOf)
  next
    assume "\<exists>j<length (availableOptions options).
       findIndex ?P (availableOptions options) = int j \<and>
       ?P (availableOptions options ! j) (int j) \<and>
       (\<forall>j'<j. \<not> ?P (availableOptions options ! j') (int j'))"
    then obtain j where j: "j < length (enabled_indices options)"
      "currentIndex options prev = int j"
      "indexOf options (elem_at (availableOptions options) (int j)) = prev"
      by (auto simp: currentIndex_def available_length)
    from assms j(1,3) have "int (enabled_indices options ! j) = prev"
      by (simp add: available_indexOf)
    with j(1,2) show ?thesis by blast
  qed
qed

lemma currentIndex_at:
  assumes "distinct options" "j < length (enabled_indices options)"
    "int (enabled_indices options ! j) = prev"
  shows "currentIndex options prev = int j"
proof -
  from currentIndex_cases [OF assms(1), of prev] assms(2,3)
  obtain j' where j': "j' < length (enabled_indices options)"
    "currentIndex options prev = int j'" "int (enabled_indices options ! j') = prev"
    by blast
  with assms(3) have "enabled_indices options ! j' = enabled_indices options ! j" by simp
  with j'(1) assms(2) have "j' = j"
    using enabled_indices_distinct [of options] by (simp add: nth_eq_iff_index_eq)
  with j'(2) show ?thesis by simp
qed

lemma currentIndex_none:
  assumes "distinct options"
    "\<forall>j<length (enabled_indices options). int (enabled_indices options ! j) \<noteq> prev"
  shows "currentIndex options prev = - 1"
  using currentIndex_cases [OF assms(1), of prev] assms(2) by blast

lemma arrowDown_at:
  assumes "distinct options" "j < length (enabled_indices options)"
    "int (enabled_indices options ! j) = prev"
  shows "arrowDown options prev =
     int (enabled_indices options ! (if j < length (enabled_indices options) - 1 then j + 1 else 0))"
proof -
  have ci: "currentIndex options prev = int j" using assms by (rule currentIndex_at)
  let ?q = "if j < length (enabled_indices options) - 1 then j + 1 else 0"
  have q: "?q < length (enabled_indices options)" using assms(2) by auto
  have "nextIndex options prev = int ?q"
    using assms(2) by (auto simp: nextIndex_def ci available_length)
  then show ?thesis
    using available_indexOf [OF assms(1) q] by (simp add: arrowDown_def)
qed

lemma arrowUp_at:
  assumes "distinct options" "j < length (enabled_indices options)"
    "int (enabled_indices options ! j) = prev"
  shows "arrowUp options prev =
     int (enabled_indices options ! (if j > 0 then j - 1 else length (enabled_indices options) - 1))"
proof -
  have ci: "currentIndex options prev = int j" using assms by (rule currentIndex_at)
  let ?q = "if j > 0 then j - 1 else length (enabled_indices options) - 1"
  have q: "?q < length (enabled_indices options)" using assms(2) by auto
  have "prevIndex options prev = int ?q"
    using assms(2) by (auto simp: prevIndex_def ci available_length)
  then show ?thesis
    using available_indexOf [OF assms(1) q] by (simp add: arrowUp_def)
qed

lemma arrowDown_none:
  assumes "distinct options" "enabled_indices options \<noteq> []"
    "\<forall>j<length (enabled_indices options). int (enabled_indices options ! j) \<noteq> prev"
  shows "arrowDown options prev = int (enabled_indices options ! 0)"
proof -
  have ci: "currentIndex options prev = - 1" using assms(1,3) by (rule currentIndex_none)
  have q: "0 < length (enabled_indices options)" using assms(2) by simp
  have "nextIndex options prev = int 0"
    by (simp add: nextIndex_def ci)
  then show ?thesis
    using available_indexOf [OF assms(1) q] by (simp add: arrowDown_def)
qed

lemma arrowUp_none:
  assumes "distinct options" "enabled_indices options \<noteq> []"
    "\<forall>j<length (enabled_indices options). int (enabled_indices options ! j) \<noteq> prev"
  shows "arrowUp options prev = int (enabled_indices options ! (length (enabled_indices options) - 1))"
proof -
  have ci: "currentIndex options prev = - 1" using assms(1,3) by (rule currentIndex_none)
  have q: "length (enabled_indices options) - 1 < length (enabled_indices options)"
    using assms(2) by simp
  have "prevIndex options prev = int (length (enabled_indices options) - 1)"
    using assms(2) by (simp add: prevIndex_def ci available_length of_nat_diff Suc_leI)
  then show ?thesis
    using available_indexOf [OF assms(1) q] by (simp add: arrowUp_def)
qed

lemma enabled_indices_nth_less:
  assumes "i < length (enabled_indices options)" "j < length (enabled_indices options)"
  shows "enabled_indices options ! i < enabled_indices options ! j \<longleftrightarrow> i < j"
proof
  assume lt: "enabled_indices options ! i < enabled_indices options ! j"
  show "i < j"
  proof (rule ccontr)
    assume "\<not> i < j"
    then consider "i = j" | "j < i" by linarith
    then show False
    proof cases
      case 1
      with lt show False by simp
    next
      case 2
      with assms(1) have "enabled_indices options ! j < enabled_indices options ! i"
        using enabled_indices_sorted [of options] by (simp add: sorted_wrt_iff_nth_less)
      with lt show False by simp
    qed
  qed
next
  assume "i < j"
  with assms(2) show "enabled_indices options ! i < enabled_indices options ! j"
    using enabled_indices_sorted [of options] by (simp add: sorted_wrt_iff_nth_less)
qed

lemma enabled_at_nth:
  "enabled_at options k \<longleftrightarrow>
     (\<exists>m<length (enabled_indices options). k = int (enabled_indices options ! m))"
  by (auto simp: enabled_at_iff in_set_conv_nth)

lemma first_enabled_nth:
  assumes "enabled_indices options \<noteq> []"
  shows "first_enabled options (int (enabled_indices options ! 0))"
proof -
  have len: "0 < length (enabled_indices options)" using assms by simp
  have "\<not> enabled_at options k" if "k < int (enabled_indices options ! 0)" for k
  proof
    assume "enabled_at options k"
    then obtain m where m: "m < length (enabled_indices options)"
      "k = int (enabled_indices options ! m)" by (auto simp: enabled_at_nth)
    with that have "enabled_indices options ! m < enabled_indices options ! 0" by simp
    with m(1) len show False by (simp add: enabled_indices_nth_less)
  qed
  moreover have "enabled_at options (int (enabled_indices options ! 0))"
    using len by (auto simp: enabled_at_nth)
  ultimately show ?thesis by (simp add: first_enabled_def)
qed

lemma last_enabled_nth:
  assumes "enabled_indices options \<noteq> []"
  shows "last_enabled options
           (int (enabled_indices options ! (length (enabled_indices options) - 1)))"
proof -
  let ?l = "length (enabled_indices options) - 1"
  have len: "?l < length (enabled_indices options)" using assms by simp
  have "\<not> enabled_at options k" if "int (enabled_indices options ! ?l) < k" for k
  proof
    assume "enabled_at options k"
    then obtain m where m: "m < length (enabled_indices options)"
      "k = int (enabled_indices options ! m)" by (auto simp: enabled_at_nth)
    with that have "enabled_indices options ! ?l < enabled_indices options ! m" by simp
    with m(1) len have "?l < m" by (simp add: enabled_indices_nth_less)
    with m(1) show False by simp
  qed
  moreover have "enabled_at options (int (enabled_indices options ! ?l))"
    using len by (auto simp: enabled_at_nth)
  ultimately show ?thesis by (simp add: last_enabled_def)
qed

lemma next_enabled_succ:
  assumes "Suc p < length (enabled_indices options)"
  shows "next_enabled options (int (enabled_indices options ! p))
           (int (enabled_indices options ! Suc p))"
proof -
  have p: "p < length (enabled_indices options)" using assms by simp
  have en: "enabled_at options (int (enabled_indices options ! Suc p))"
    using assms by (auto simp: enabled_at_nth)
  have lt: "int (enabled_indices options ! p) < int (enabled_indices options ! Suc p)"
    using assms p by (simp add: enabled_indices_nth_less)
  have gap: "\<not> enabled_at options k"
    if "int (enabled_indices options ! p) < k" "k < int (enabled_indices options ! Suc p)" for k
  proof
    assume "enabled_at options k"
    then obtain m where m: "m < length (enabled_indices options)"
      "k = int (enabled_indices options ! m)" by (auto simp: enabled_at_nth)
    from that m(2) have "enabled_indices options ! p < enabled_indices options ! m"
      "enabled_indices options ! m < enabled_indices options ! Suc p" by simp_all
    with m(1) p assms have "p < m" "m < Suc p" by (simp_all add: enabled_indices_nth_less)
    then show False by simp
  qed
  from en lt have "\<exists>k. int (enabled_indices options ! p) < k \<and> enabled_at options k" by blast
  with en lt gap show ?thesis by (simp add: next_enabled_def)
qed

lemma prev_enabled_pred:
  assumes "Suc p < length (enabled_indices options)"
  shows "prev_enabled options (int (enabled_indices options ! Suc p))
           (int (enabled_indices options ! p))"
proof -
  have p: "p < length (enabled_indices options)" using assms by simp
  have en: "enabled_at options (int (enabled_indices options ! p))"
    using p by (auto simp: enabled_at_nth)
  have lt: "int (enabled_indices options ! p) < int (enabled_indices options ! Suc p)"
    using assms p by (simp add: enabled_indices_nth_less)
  have gap: "\<not> enabled_at options k"
    if "int (enabled_indices options ! p) < k" "k < int (enabled_indices options ! Suc p)" for k
  proof
    assume "enabled_at options k"
    then obtain m where m: "m < length (enabled_indices options)"
      "k = int (enabled_indices options ! m)" by (auto simp: enabled_at_nth)
    from that m(2) have "enabled_indices options ! p < enabled_indices options ! m"
      "enabled_indices options ! m < enabled_indices options ! Suc p" by simp_all
    with m(1) p assms have "p < m" "m < Suc p" by (simp_all add: enabled_indices_nth_less)
    then show False by simp
  qed
  from en lt have "\<exists>k. k < int (enabled_indices options ! Suc p) \<and> enabled_at options k" by blast
  with en lt gap show ?thesis by (simp add: prev_enabled_def)
qed

lemma next_enabled_wrap:
  assumes "first_enabled options j" "\<forall>k. prev < k \<longrightarrow> \<not> enabled_at options k"
  shows "next_enabled options prev j"
  using assms by (auto simp: next_enabled_def first_enabled_def)

lemma prev_enabled_wrap:
  assumes "last_enabled options j" "\<forall>k. k < prev \<longrightarrow> \<not> enabled_at options k"
  shows "prev_enabled options prev j"
  using assms by (auto simp: prev_enabled_def last_enabled_def)

lemma next_enabled_below:
  assumes "first_enabled options j" "prev < j"
  shows "next_enabled options prev j"
proof -
  from assms have "\<exists>k. prev < k \<and> enabled_at options k" by (auto simp: first_enabled_def)
  with assms show ?thesis by (simp add: next_enabled_def first_enabled_def)
qed

lemma prev_enabled_above:
  assumes "last_enabled options j" "j < prev"
  shows "prev_enabled options prev j"
proof -
  from assms have "\<exists>k. k < prev \<and> enabled_at options k" by (auto simp: last_enabled_def)
  with assms show ?thesis by (simp add: prev_enabled_def last_enabled_def)
qed

lemma enabled_indices_nonempty:
  assumes "\<exists>option \<in> set options. \<not> is_disabled option"
  shows "enabled_indices options \<noteq> []"
proof -
  from assms obtain k where "k < length options" "\<not> is_disabled (options ! k)"
    by (auto simp: in_set_conv_nth)
  then have "k \<in> set (enabled_indices options)" by (simp add: enabled_indices_set)
  then show ?thesis by auto
qed

lemma arrowDown_spec:
  assumes d: "distinct options" and ne: "enabled_indices options \<noteq> []"
    and nd: "\<not> (0 \<le> prev \<and> prev < int (length options) \<and> is_disabled (options ! nat prev))"
  shows "next_enabled options prev (arrowDown options prev)"
proof (cases "enabled_at options prev")
  case True
  then obtain p where p: "p < length (enabled_indices options)"
    "prev = int (enabled_indices options ! p)" by (auto simp: enabled_at_nth)
  show ?thesis
  proof (cases "p < length (enabled_indices options) - 1")
    case True
    then have "Suc p < length (enabled_indices options)" by simp
    then have "next_enabled options (int (enabled_indices options ! p))
           (int (enabled_indices options ! Suc p))" by (rule next_enabled_succ)
    moreover have "arrowDown options prev = int (enabled_indices options ! Suc p)"
      using arrowDown_at [OF d p(1)] p(2) True by simp
    ultimately show ?thesis using p(2) by simp
  next
    case False
    with p(1) have pl: "p = length (enabled_indices options) - 1" by simp
    have "last_enabled options prev" using last_enabled_nth [OF ne] pl p(2) by simp
    then have "\<forall>k. prev < k \<longrightarrow> \<not> enabled_at options k" by (simp add: last_enabled_def)
    with first_enabled_nth [OF ne]
    have "next_enabled options prev (int (enabled_indices options ! 0))"
      by (rule next_enabled_wrap)
    moreover have "arrowDown options prev = int (enabled_indices options ! 0)"
      using arrowDown_at [OF d p(1)] p(2) False by simp
    ultimately show ?thesis by simp
  qed
next
  case False
  then have none: "\<forall>j<length (enabled_indices options). int (enabled_indices options ! j) \<noteq> prev"
    by (auto simp: enabled_at_nth)
  have res: "arrowDown options prev = int (enabled_indices options ! 0)"
    using d ne none by (rule arrowDown_none)
  from False nd have "prev < 0 \<or> int (length options) \<le> prev"
    by (auto simp: enabled_at_def)
  then show ?thesis
  proof
    assume "prev < 0"
    then have "prev < int (enabled_indices options ! 0)" by simp
    with first_enabled_nth [OF ne] show ?thesis
      unfolding res by (rule next_enabled_below)
  next
    assume "int (length options) \<le> prev"
    then have "\<forall>k. prev < k \<longrightarrow> \<not> enabled_at options k" by (auto simp: enabled_at_def)
    with first_enabled_nth [OF ne] show ?thesis
      unfolding res by (rule next_enabled_wrap)
  qed
qed

lemma arrowUp_spec:
  assumes d: "distinct options" and ne: "enabled_indices options \<noteq> []"
    and nd: "\<not> (0 \<le> prev \<and> prev < int (length options) \<and> is_disabled (options ! nat prev))"
  shows "prev_enabled options prev (arrowUp options prev)"
proof (cases "enabled_at options prev")
  case True
  then obtain p where p: "p < length (enabled_indices options)"
    "prev = int (enabled_indices options ! p)" by (auto simp: enabled_at_nth)
  show ?thesis
  proof (cases p)
    case (Suc q)
    with p(1) have "Suc q < length (enabled_indices options)" by simp
    then have "prev_enabled options (int (enabled_indices options ! Suc q))
           (int (enabled_indices options ! q))" by (rule prev_enabled_pred)
    moreover have "arrowUp options prev = int (enabled_indices options ! q)"
      using arrowUp_at [OF d p(1)] p(2) Suc by simp
    ultimately show ?thesis using p(2) Suc by simp
  next
    case 0
    have "first_enabled options prev" using first_enabled_nth [OF ne] 0 p(2) by simp
    then have "\<forall>k. k < prev \<longrightarrow> \<not> enabled_at options k" by (simp add: first_enabled_def)
    with last_enabled_nth [OF ne]
    have "prev_enabled options prev
            (int (enabled_indices options ! (length (enabled_indices options) - 1)))"
      by (rule prev_enabled_wrap)
    moreover have "arrowUp options prev
            = int (enabled_indices options ! (length (enabled_indices options) - 1))"
      using arrowUp_at [OF d p(1)] p(2) 0 by simp
    ultimately show ?thesis by simp
  qed
next
  case False
  then have none: "\<forall>j<length (enabled_indices options). int (enabled_indices options ! j) \<noteq> prev"
    by (auto simp: enabled_at_nth)
  have res: "arrowUp options prev
      = int (enabled_indices options ! (length (enabled_indices options) - 1))"
    using d ne none by (rule arrowUp_none)
  from False nd have "prev < 0 \<or> int (length options) \<le> prev"
    by (auto simp: enabled_at_def)
  then show ?thesis
  proof
    assume "prev < 0"
    then have "\<forall>k. k < prev \<longrightarrow> \<not> enabled_at options k" by (auto simp: enabled_at_def)
    with last_enabled_nth [OF ne] show ?thesis
      unfolding res by (rule prev_enabled_wrap)
  next
    assume ge: "int (length options) \<le> prev"
    have "enabled_at options (int (enabled_indices options ! (length (enabled_indices options) - 1)))"
      using last_enabled_nth [OF ne] by (simp add: last_enabled_def)
    with ge have "int (enabled_indices options ! (length (enabled_indices options) - 1)) < prev"
      by (simp add: enabled_at_def)
    with last_enabled_nth [OF ne] show ?thesis
      unfolding res by (rule prev_enabled_above)
  qed
qed

lemma arrow_from_disabled:
  assumes d: "distinct options" and ne: "enabled_indices options \<noteq> []"
    and dis: "0 \<le> prev" "prev < int (length options)" "is_disabled (options ! nat prev)"
  shows "first_enabled options (arrowDown options prev) \<and>
         last_enabled options (arrowUp options prev)"
proof -
  from dis have "\<not> enabled_at options prev" by (simp add: enabled_at_def)
  then have none: "\<forall>j<length (enabled_indices options). int (enabled_indices options ! j) \<noteq> prev"
    by (auto simp: enabled_at_nth)
  have "arrowDown options prev = int (enabled_indices options ! 0)"
    using d ne none by (rule arrowDown_none)
  moreover have "arrowUp options prev
      = int (enabled_indices options ! (length (enabled_indices options) - 1))"
    using d ne none by (rule arrowUp_none)
  ultimately show ?thesis
    using first_enabled_nth [OF ne] last_enabled_nth [OF ne] by simp
qed

text \<open>
  The arrow keys on a list that holds no option object twice (as unique values ensure)
  and at least one non-disabled option. From a highlighted index that does not point
  at a disabled option (an index of a non-disabled option, \<open>-1\<close>, or any index
  outside the list), ArrowDown moves the highlight to the next non-disabled option in
  list order, wrapping from the last to the first, and ArrowUp to the previous one,
  wrapping from the first to the last. From an index that points at a disabled option,
  ArrowDown gives the first non-disabled option and ArrowUp the last. In every case the
  result is the index of a non-disabled option, and no callback is invoked.
\<close>

theorem arrow_keys_move:
  assumes "distinct options" and "\<exists>option \<in> set options. \<not> is_disabled option"
  shows "(if 0 \<le> prev \<and> prev < int (length options) \<and> is_disabled (options ! nat prev)
          then first_enabled options (arrowDown options prev) \<and>
               last_enabled options (arrowUp options prev)
          else next_enabled options prev (arrowDown options prev) \<and>
               prev_enabled options prev (arrowUp options prev)) \<and>
         enabled_at options (arrowDown options prev) \<and>
         enabled_at options (arrowUp options prev) \<and>
         handleKeyDown options True prev ''ArrowDown'' = Inr (arrowDown options prev, []) \<and>
         handleKeyDown options True prev ''ArrowUp'' = Inr (arrowUp options prev, [])"
proof -
  have ne: "enabled_indices options \<noteq> []"
    using assms(2) by (rule enabled_indices_nonempty)
  have main: "if 0 \<le> prev \<and> prev < int (length options) \<and> is_disabled (options ! nat prev)
          then first_enabled options (arrowDown options prev) \<and>
               last_enabled options (arrowUp options prev)
          else next_enabled options prev (arrowDown options prev) \<and>
               prev_enabled options prev (arrowUp options prev)"
  proof (cases "0 \<le> prev \<and> prev < int (length options) \<and> is_disabled (options ! nat prev)")
    case True
    then show ?thesis using arrow_from_disabled [OF assms(1) ne, of prev] by simp
  next
    case False
    then show ?thesis
      using arrowDown_spec [OF assms(1) ne False] arrowUp_spec [OF assms(1) ne False]
      by auto
  qed
  then have "enabled_at options (arrowDown options prev)" "enabled_at options (arrowUp options prev)"
    by (auto simp: first_enabled_def last_enabled_def next_enabled_def prev_enabled_def
        split: if_splits)
  moreover have "handleKeyDown options True prev ''ArrowDown'' = Inr (arrowDown options prev, [])"
    "handleKeyDown options True prev ''ArrowUp'' = Inr (arrowUp options prev, [])"
    by (simp_all add: handleKeyDown_def)
  ultimately show ?thesis using main by simp
qed

theorem arrow_keys_move_witness:
  "distinct example_options \<and> \<not> is_disabled (example_options ! 0) \<and>
   arrowDown example_options 0 = 2 \<and> next_enabled example_options 0 2 \<and>
   arrowUp example_options 0 = 2 \<and> prev_enabled example_options 0 2 \<and>
   arrowDown example_options 1 = 0 \<and> first_enabled example_options 0 \<and>
   arrowUp example_options 1 = 2 \<and> last_enabled example_options 2 \<and>
   arrowDown example_options (- 1) = 0 \<and> next_enabled example_options (- 1) 0"
proof -
  have d: "distinct example_options" by code_simp
  have e0: "\<not> is_disabled (example_options ! 0)" by code_simp
  have e: "\<exists>option \<in> set example_options. \<not> is_disabled option" by code_simp
  have c0: "\<not> (0 \<le> (0::int) \<and> (0::int) < int (length example_options) \<and>
                is_disabled (example_options ! nat 0))" by code_simp
  have c1: "0 \<le> (1::int) \<and> (1::int) < int (length example_options) \<and>
                is_disabled (example_options ! nat 1)" by code_simp
  have cm: "\<not> (0 \<le> (- 1::int) \<and> (- 1::int) < int (length example_options) \<and>
                is_disabled (example_options ! nat (- 1)))" by simp
  have v: "arrowDown example_options 0 = 2" "arrowUp example_options 0 = 2"
    "arrowDown example_options 1 = 0" "arrowUp example_options 1 = 2"
    "arrowDown example_options (- 1) = 0"
    by code_simp+
  from arrow_keys_move [OF d e, of 0] c0
  have "next_enabled example_options 0 (arrowDown example_options 0) \<and>
        prev_enabled example_options 0 (arrowUp example_options 0)" by presburger
  moreover from arrow_keys_move [OF d e, of 1] c1
  have "first_enabled example_options (arrowDown example_options 1) \<and>
        last_enabled example_options (arrowUp example_options 1)" by presburger
  moreover from arrow_keys_move [OF d e, of "- 1"] cm
  have "next_enabled example_options (- 1) (arrowDown example_options (- 1))" by presburger
  ultimately show ?thesis using d e0 v by simp
qed

text \<open>
  In the list Apple, Banana (disabled), Cherry, the next non-disabled option after
  index 1 is Cherry at index 2, but ArrowDown from index 1 gives index 0; the previous
  one is Apple at index 0, but ArrowUp gives index 2.
\<close>

theorem arrow_from_disabled_example:
  "is_disabled (example_options ! 1) \<and>
   arrowDown example_options 1 = 0 \<and> next_enabled example_options 1 2 \<and>
   \<not> next_enabled example_options 1 0 \<and>
   arrowUp example_options 1 = 2 \<and> prev_enabled example_options 1 0 \<and>
   \<not> prev_enabled example_options 1 2"
proof -
  have en: "enabled_at example_options k \<longleftrightarrow> k = 0 \<or> k = 2" for k
  proof
    assume a: "enabled_at example_options k"
    then have "k = 0 \<or> k = 1 \<or> k = 2"
      by (auto simp: enabled_at_def example_options_def)
    moreover have "\<not> enabled_at example_options 1"
      by (simp add: enabled_at_def example_options_def is_disabled_def banana_def)
    ultimately show "k = 0 \<or> k = 2" using a by auto
  next
    assume "k = 0 \<or> k = 2"
    then show "enabled_at example_options k"
      by (auto simp: enabled_at_def example_options_def is_disabled_def apple_def cherry_def)
  qed
  have "is_disabled (example_options ! 1)" by code_simp
  moreover have "arrowDown example_options 1 = 0" "arrowUp example_options 1 = 2"
    by code_simp+
  moreover have above: "\<exists>k. 1 < k \<and> enabled_at example_options k"
    using en [of 2] by (intro exI [of _ 2]) simp
  moreover have below: "\<exists>k. k < 1 \<and> enabled_at example_options k"
    using en [of 0] by (intro exI [of _ 0]) simp
  moreover have "next_enabled example_options 1 2" "\<not> next_enabled example_options 1 0"
    using above by (simp_all add: next_enabled_def en)
  moreover have "prev_enabled example_options 1 0" "\<not> prev_enabled example_options 1 2"
    using below by (simp_all add: prev_enabled_def en)
  ultimately show ?thesis by blast
qed

section \<open>Keyboard navigation: array reads\<close>

lemma currentIndex_range:
  "- 1 \<le> currentIndex options prev \<and>
   currentIndex options prev < int (length (availableOptions options))"
proof -
  let ?P = "\<lambda>(_::Option) index.
     indexOf options (elem_at (availableOptions options) index) = prev"
  from findIndex_cases [of ?P "availableOptions options"]
  show ?thesis by (auto simp: currentIndex_def)
qed

lemma arrow_reads_in_bounds:
  assumes "availableOptions options \<noteq> []"
  shows "0 \<le> nextIndex options prev \<and>
         nextIndex options prev < int (length (availableOptions options)) \<and>
         0 \<le> prevIndex options prev \<and>
         prevIndex options prev < int (length (availableOptions options))"
proof -
  from assms have "0 < int (length (availableOptions options))" by simp
  with currentIndex_range [of options prev] show ?thesis
    by (auto simp: nextIndex_def prevIndex_def)
qed

lemma arrow_reads_out_of_bounds:
  assumes "availableOptions options = []"
  shows "nextIndex options prev = 0 \<and> prevIndex options prev = - 1 \<and>
         elem_at (availableOptions options) (nextIndex options prev) = None \<and>
         elem_at (availableOptions options) (prevIndex options prev) = None \<and>
         arrowDown options prev = - 1 \<and> arrowUp options prev = - 1"
proof -
  from assms have ci: "currentIndex options prev = - 1"
    by (simp add: currentIndex_def findIndex_def)
  from assms ci have ni: "nextIndex options prev = 0" "prevIndex options prev = - 1"
    by (simp_all add: nextIndex_def prevIndex_def)
  from assms ni show ?thesis
    by (simp add: arrowDown_def arrowUp_def elem_at_def indexOf_def)
qed

text \<open>
  Claim C8. With at least one non-disabled option the arrow keys read
  \<^verbatim>\<open>availableOptions\<close> within its bounds (lemma \<open>arrow_reads_in_bounds\<close>). When no
  option is enabled they do not: for the list holding only the disabled Banana, and for the
  empty list, \<^verbatim>\<open>availableOptions\<close> is empty, ArrowDown reads it at index \<open>0\<close> and
  ArrowUp at index \<open>-1\<close>; both reads give \<^verbatim>\<open>undefined\<close> and the highlight becomes
  \<open>-1\<close>. Home and End check for this case and leave the highlight as it is. No
  operation fails.
\<close>

theorem arrow_keys_all_disabled:
  "availableOptions [banana] = [] \<and>
   nextIndex [banana] 0 = 0 \<and>
   elem_at (availableOptions [banana]) (nextIndex [banana] 0) = None \<and>
   handleKeyDown [banana] True 0 ''ArrowDown'' = Inr (- 1, []) \<and>
   prevIndex [banana] 0 = - 1 \<and>
   elem_at (availableOptions [banana]) (prevIndex [banana] 0) = None \<and>
   handleKeyDown [banana] True 0 ''ArrowUp'' = Inr (- 1, []) \<and>
   handleKeyDown [banana] True 0 ''End'' = Inr (0, []) \<and>
   handleKeyDown [banana] True 0 ''Home'' = Inr (0, []) \<and>
   elem_at (availableOptions []) (nextIndex [] (- 1)) = None \<and>
   handleKeyDown [] True (- 1) ''ArrowDown'' = Inr (- 1, [])"
  by code_simp

section \<open>The virtual-scroll window\<close>

lemma take_drop_map_nth:
  "k + m \<le> length xs \<Longrightarrow> take m (drop k xs) = map (\<lambda>j. xs ! j) [k..<k + m]"
  by (auto simp: list_eq_iff_nth_eq)

lemma upto_as_upt:
  "0 \<le> a \<Longrightarrow> [a..b] = map int [nat a..<nat (b + 1)]"
  by (auto simp: list_eq_iff_nth_eq nth_upto)

lemma floor_div_bounds:
  assumes "0 < h"
  shows "floor_div x h * h \<le> x" and "x < (floor_div x h + 1) * h"
proof -
  have eq: "x = (x div h) * h + x mod h" by simp
  have m: "0 \<le> x mod h" "x mod h < h" using assms by simp_all
  from eq m(1) show "floor_div x h * h \<le> x" unfolding floor_div_def by linarith
  have "(x div h + 1) * h = (x div h) * h + h" by (simp add: algebra_simps)
  with eq m(2) show "x < (floor_div x h + 1) * h" unfolding floor_div_def by linarith
qed

lemma mult_le_floor_div:
  assumes "0 < h"
  shows "j * h \<le> x \<longleftrightarrow> j \<le> floor_div x h"
proof
  assume "j * h \<le> x"
  with assms have "(j * h) div h \<le> x div h" by (intro zdiv_mono1) simp_all
  with assms show "j \<le> floor_div x h" by (simp add: floor_div_def)
next
  assume "j \<le> floor_div x h"
  with assms have "j * h \<le> floor_div x h * h" by (intro mult_right_mono) simp_all
  with floor_div_bounds(1) [OF assms, of x] show "j * h \<le> x" by linarith
qed

lemma less_mult_floor_div:
  assumes "0 < h"
  shows "x < (j + 1) * h \<longleftrightarrow> floor_div x h \<le> j"
proof -
  have "x < (j + 1) * h \<longleftrightarrow> \<not> (j + 1) * h \<le> x" by linarith
  also have "\<dots> \<longleftrightarrow> \<not> j + 1 \<le> floor_div x h"
    using mult_le_floor_div [OF assms, of "j + 1" x] by blast
  also have "\<dots> \<longleftrightarrow> floor_div x h \<le> j" by linarith
  finally show ?thesis .
qed

lemma ceil_div_le:
  assumes "0 < h"
  shows "ceil_div a h \<le> k \<longleftrightarrow> a \<le> k * h"
proof -
  have "ceil_div a h \<le> k \<longleftrightarrow> - k \<le> floor_div (- a) h"
    by (simp add: ceil_div_def floor_div_def) linarith
  also have "\<dots> \<longleftrightarrow> (- k) * h \<le> - a"
    using mult_le_floor_div [OF assms, of "- k" "- a"] by blast
  also have "\<dots> \<longleftrightarrow> a \<le> k * h" by simp
  finally show ?thesis .
qed

lemma floor_le_ceil:
  assumes "0 < h"
  shows "floor_div a h \<le> ceil_div a h" and "ceil_div a h \<le> floor_div a h + 1"
proof -
  have "a \<le> ceil_div a h * h" using ceil_div_le [OF assms, of a "ceil_div a h"] by simp
  then have "a < (ceil_div a h + 1) * h" using assms by (simp add: algebra_simps) 
  then show "floor_div a h \<le> ceil_div a h" using assms by (simp add: less_mult_floor_div)
  have "a \<le> (floor_div a h + 1) * h" using floor_div_bounds(2) [OF assms, of a] by simp
  then show "ceil_div a h \<le> floor_div a h + 1" using assms by (simp add: ceil_div_le)
qed

lemma ceil_div_add:
  assumes "0 < h"
  shows "ceil_div (s + c) h \<le> floor_div s h + 1 + ceil_div c h"
proof -
  have "s < (floor_div s h + 1) * h" using assms by (rule floor_div_bounds(2))
  moreover have "c \<le> ceil_div c h * h" using ceil_div_le [OF assms, of c "ceil_div c h"] by simp
  ultimately have "s + c \<le> (floor_div s h + 1 + ceil_div c h) * h"
    by (simp add: algebra_simps)
  then show ?thesis using assms by (simp add: ceil_div_le)
qed

lemma ceil_div_nonneg:
  assumes "0 < h" "0 \<le> a"
  shows "0 \<le> ceil_div a h"
proof -
  have "0 \<le> floor_div a h" using assms by (simp add: floor_div_def pos_imp_zdiv_nonneg_iff)
  with floor_le_ceil(1) [OF assms(1), of a] show ?thesis by linarith
qed

lemma floor_div_mono:
  assumes "0 < h" "a \<le> b"
  shows "floor_div a h \<le> floor_div b h"
  using assms by (simp add: floor_div_def zdiv_mono1)

lemma slice_range:
  assumes "0 \<le> a" "0 \<le> b" "b \<le> int (length xs)"
  shows "slice xs a b = map (\<lambda>i. xs ! nat i) [a..b - 1]"
proof (cases "a \<le> b")
  case True
  with assms have k: "min a (int (length xs)) = a" "min b (int (length xs)) = b" by simp_all
  have le: "nat a + nat (b - a) \<le> length xs" using assms True by linarith
  have "slice xs a b = take (nat (b - a)) (drop (nat a) xs)"
    using assms k by (simp add: slice_def Let_def)
  also have "\<dots> = map (\<lambda>j. xs ! j) [nat a..<nat a + nat (b - a)]"
    using le by (rule take_drop_map_nth)
  also have "nat a + nat (b - a) = nat (b - 1 + 1)" using assms True by linarith
  finally have "slice xs a b = map (\<lambda>j. xs ! j) [nat a..<nat (b - 1 + 1)]" .
  moreover have "[a..b - 1] = map int [nat a..<nat (b - 1 + 1)]"
    using assms(1) by (rule upto_as_upt)
  ultimately show ?thesis by (simp add: comp_def)
next
  case False
  then have "[a..b - 1] = []" by simp
  moreover from False assms have "min b (int (length xs)) - min a (int (length xs)) \<le> 0"
    by linarith
  then have "slice xs a b = []" using assms by (simp add: slice_def Let_def)
  ultimately show ?thesis by simp
qed

lemma length_slice_le:
  assumes "0 \<le> a"
  shows "int (length (slice xs a b)) \<le>
     (if 0 \<le> b then max 0 (b - a) else max 0 (int (length xs) + b))"
  using assms by (auto simp: slice_def Let_def)

lemma length_visibleItems:
  "length (visibleItems (useVirtualScroll items h c ov s))
     = length (slice items (startIndex s h ov) (endIndex (length items) s c h ov + 1))"
  by (simp add: useVirtualScroll_def Let_def)

lemma startIndex_nonneg: "0 \<le> startIndex s h ov"
  by (simp add: startIndex_def)

lemma endIndex_le: "endIndex n s c h ov + 1 \<le> int n"
  by (simp add: endIndex_def)

lemma endIndex_nonneg:
  assumes "0 < h" "0 \<le> ov" "0 \<le> s + c"
  shows "0 \<le> endIndex n s c h ov + 1"
proof -
  have "0 \<le> ceil_div (s + c) h" using assms(1,3) by (rule ceil_div_nonneg)
  with assms(2) show ?thesis by (simp add: endIndex_def)
qed

lemma visibleItems_range:
  assumes "0 < h" "0 \<le> ov" "0 \<le> s + c"
  shows "visibleItems (useVirtualScroll items h c ov s)
     = map (\<lambda>i. (items ! nat i, i)) [startIndex s h ov..endIndex (length items) s c h ov]"
proof -
  let ?a = "startIndex s h ov" and ?b = "endIndex (length items) s c h ov + 1"
  have sl: "slice items ?a ?b = map (\<lambda>i. items ! nat i) [?a..?b - 1]"
    using startIndex_nonneg endIndex_nonneg [OF assms] endIndex_le by (rule slice_range)
  have "map (\<lambda>(item, index). (item, ?a + int index))
          (zip (map (\<lambda>i. items ! nat i) [?a..?b - 1]) [0..<length [?a..?b - 1]])
        = map (\<lambda>i. (items ! nat i, i)) [?a..?b - 1]"
    using startIndex_nonneg [of s h ov]
    by (auto simp: list_eq_iff_nth_eq nth_upto)
  then show ?thesis
    by (simp add: useVirtualScroll_def Let_def sl)
qed

lemma row_visible_iff:
  assumes "0 < h"
  shows "row_visible h s c j \<longleftrightarrow> floor_div s h \<le> j \<and> j \<le> floor_div (s + c) h"
  using mult_le_floor_div [OF assms, of j "s + c"] less_mult_floor_div [OF assms, of s j]
  by (auto simp: row_visible_def)

lemma rendered_indices:
  assumes "0 < h" "0 \<le> ov" "0 \<le> s + c"
  shows "snd ` set (visibleItems (useVirtualScroll items h c ov s))
     = {i. startIndex s h ov \<le> i \<and> i \<le> endIndex (length items) s c h ov}"
  by (auto simp: visibleItems_range [OF assms] image_iff)

lemma window_superset:
  assumes h: "0 < h" and ov: "0 \<le> ov" and sc: "0 \<le> s + c"
    and i: "0 \<le> i" "i < int (length items)"
    and j: "row_visible h s c j" "j - ov \<le> i" "i \<le> j + ov"
  shows "i \<in> snd ` set (visibleItems (useVirtualScroll items h c ov s))"
proof -
  from j(1) have jj: "floor_div s h \<le> j" "j \<le> floor_div (s + c) h"
    using row_visible_iff [OF h] by blast+
  have "floor_div (s + c) h \<le> ceil_div (s + c) h" using h by (rule floor_le_ceil(1))
  with jj j(2,3) i have "startIndex s h ov \<le> i" "i \<le> endIndex (length items) s c h ov"
    by (simp_all add: startIndex_def endIndex_def)
  then show ?thesis by (simp add: rendered_indices [OF h ov sc])
qed

lemma window_at_most_one_more:
  assumes h: "0 < h" and ov: "0 \<le> ov" and sc: "0 \<le> s + c" and c: "0 \<le> c"
    and i: "i \<in> snd ` set (visibleItems (useVirtualScroll items h c ov s))"
  shows "0 \<le> i \<and> i < int (length items) \<and>
         (\<exists>j. row_visible h s c j \<and> j - ov \<le> i \<and> i \<le> j + ov + 1)"
proof -
  from i have r: "startIndex s h ov \<le> i" "i \<le> endIndex (length items) s c h ov"
    by (simp_all add: rendered_indices [OF h ov sc])
  let ?j0 = "floor_div s h" and ?j1 = "floor_div (s + c) h"
  have j01: "?j0 \<le> ?j1" using h c by (intro floor_div_mono) simp_all
  have ce: "ceil_div (s + c) h \<le> ?j1 + 1" using h by (rule floor_le_ceil(2))
  from r have lo: "0 \<le> i" "?j0 - ov \<le> i" by (simp_all add: startIndex_def)
  from r have hi: "i < int (length items)" "i \<le> ceil_div (s + c) h + ov"
    by (simp_all add: endIndex_def)
  let ?j = "max ?j0 (min ?j1 i)"
  have "row_visible h s c ?j" using j01 by (simp add: row_visible_iff [OF h])
  moreover have "?j - ov \<le> i" "i \<le> ?j + ov + 1"
    using lo hi ce j01 ov by linarith+
  ultimately show ?thesis using lo(1) hi(1) by blast
qed

lemma window_size:
  assumes h: "0 < h" and ov: "0 \<le> ov" and sc: "0 \<le> s + c" and c: "0 \<le> c"
  shows "int (length (visibleItems (useVirtualScroll items h c ov s)))
           \<le> ceil_div c h + 2 * ov + 2"
proof -
  have "int (length (visibleItems (useVirtualScroll items h c ov s)))
      \<le> max 0 (endIndex (length items) s c h ov + 1 - startIndex s h ov)"
    using length_slice_le [OF startIndex_nonneg, of items s h ov
        "endIndex (length items) s c h ov + 1"] endIndex_nonneg [OF h ov sc, of "length items"]
    by (simp add: length_visibleItems)
  moreover have "endIndex (length items) s c h ov \<le> ceil_div (s + c) h + ov"
    by (simp add: endIndex_def)
  moreover have "floor_div s h - ov \<le> startIndex s h ov"
    by (simp add: startIndex_def)
  moreover have "ceil_div (s + c) h \<le> floor_div s h + 1 + ceil_div c h"
    using h by (rule ceil_div_add)
  moreover have "0 \<le> ceil_div c h" using h c by (rule ceil_div_nonneg)
  ultimately show ?thesis using ov by linarith
qed

lemma window_smaller:
  assumes h: "0 < h" and ov: "0 \<le> ov" and c: "0 \<le> c"
    and n: "ceil_div c h + 2 * ov + 2 < int (length items)"
  shows "length (visibleItems (useVirtualScroll items h c ov s)) < length items"
proof -
  let ?b = "endIndex (length items) s c h ov + 1"
  have c0: "0 \<le> ceil_div c h" using h c by (rule ceil_div_nonneg)
  have len: "int (length (visibleItems (useVirtualScroll items h c ov s)))
      \<le> (if 0 \<le> ?b then max 0 (?b - startIndex s h ov) else max 0 (int (length items) + ?b))"
    using length_slice_le [OF startIndex_nonneg, of items s h ov ?b]
    by (simp add: length_visibleItems)
  show ?thesis
  proof (cases "0 \<le> ?b")
    case True
    have "endIndex (length items) s c h ov \<le> ceil_div (s + c) h + ov"
      by (simp add: endIndex_def)
    moreover have "floor_div s h - ov \<le> startIndex s h ov"
      by (simp add: startIndex_def)
    moreover have "ceil_div (s + c) h \<le> floor_div s h + 1 + ceil_div c h"
      using h by (rule ceil_div_add)
    ultimately have "?b - startIndex s h ov \<le> ceil_div c h + 2 * ov + 2" by linarith
    with len True n c0 ov show ?thesis by simp
  next
    case False
    with len n c0 ov show ?thesis by simp
  qed
qed

lemma length_many_options: "length (many_options n) = n"
  by (simp add: many_options_def)

lemma filteredOptions_large:
  "filteredOptions (large_props n m) (initial_state b) = many_options n"
  by (simp add: filteredOptions_def large_props_def initial_state_def filterOptions_def trim_def)

lemma length_window:
  assumes "0 < h" "0 \<le> ov" "0 \<le> s + c"
  shows "length (visibleItems (useVirtualScroll items h c ov s))
     = nat (endIndex (length items) s c h ov - startIndex s h ov + 1)"
  by (simp add: visibleItems_range [OF assms])

lemma example_window:
  "map snd (visibleItems (useVirtualScroll [0..<20::nat] 40 240 5 10))
     = [0, 1, 2, 3, 4, 5, 6, 7, 8, 9, 10, 11, 12]"
proof -
  have "startIndex 10 40 5 = 0" by (simp add: startIndex_def floor_div_def)
  moreover have "endIndex (length [0..<20::nat]) 10 240 40 5 = 12"
    by (simp add: endIndex_def ceil_div_def)
  moreover have "[0..12::int] = [0, 1, 2, 3, 4, 5, 6, 7, 8, 9, 10, 11, 12]"
    by code_simp
  ultimately show ?thesis
    using visibleItems_range [of 40 5 10 240 "[0..<20::nat]"] by (simp add: comp_def)
qed

lemma tall_window:
  "shouldUseVirtualScroll (large_props 101 4040) (initial_state False) \<and>
   length (renderVirtualItems (large_props 101 4040) (initial_state False) 0) = 101"
proof -
  have f: "filteredOptions (large_props 101 4040) (initial_state False) = many_options 101"
    by (rule filteredOptions_large)
  have ev: "p_enableVirtualScroll (large_props 101 4040) = None"
    by (simp add: large_props_def)
  have mh: "maxHeight (large_props 101 4040) = 4040"
    by (simp add: maxHeight_def large_props_def)
  have use: "shouldUseVirtualScroll (large_props 101 4040) (initial_state False)"
    by (simp add: shouldUseVirtualScroll_def ev f length_many_options LARGE_LIST_THRESHOLD_def)
  have dh: "dropdownHeight (large_props 101 4040) (initial_state False) = 4040"
    by (simp add: dropdownHeight_def mh f length_many_options ITEM_HEIGHT_def)
  have "startIndex 0 40 5 = 0" by (simp add: startIndex_def floor_div_def)
  moreover have "endIndex 101 0 4040 40 5 = 100"
    by (simp add: endIndex_def ceil_div_def)
  ultimately have "length (visibleItems (useVirtualScroll (many_options 101) 40 4040 5 0)) = 101"
    using length_window [of 40 5 0 4040 "many_options 101"]
    by (simp add: length_many_options)
  with use dh f show ?thesis
    by (simp add: renderVirtualItems_def virtualScrollProps_def ITEM_HEIGHT_def)
qed

lemma shouldUseVirtualScroll_iff:
  "shouldUseVirtualScroll p s \<longleftrightarrow>
     p_enableVirtualScroll p = Some True \<or>
     (p_enableVirtualScroll p = None \<and> LARGE_LIST_THRESHOLD < length (filteredOptions p s))"
  by (cases "p_enableVirtualScroll p") (simp_all add: shouldUseVirtualScroll_def)

lemma component_window_smaller:
  assumes "shouldUseVirtualScroll p s"
    "LARGE_LIST_THRESHOLD < length (filteredOptions p s)"
    "0 \<le> maxHeight p" "maxHeight p \<le> 3520"
  shows "length (renderVirtualItems p s scrollTop) < length (filteredOptions p s)"
proof -
  have n: "100 < int (length (filteredOptions p s))"
    using assms(2) by (simp add: LARGE_LIST_THRESHOLD_def)
  have dh: "0 \<le> dropdownHeight p s" "dropdownHeight p s \<le> 88 * 40"
    using assms(3,4) by (simp_all add: dropdownHeight_def ITEM_HEIGHT_def)
  have "ceil_div (dropdownHeight p s) 40 \<le> 88"
    using dh(2) ceil_div_le [of 40 "dropdownHeight p s" 88] by simp
  with n have "ceil_div (dropdownHeight p s) 40 + 2 * 5 + 2 < int (length (filteredOptions p s))"
    by linarith
  with dh(1)
  have "length (visibleItems (useVirtualScroll (filteredOptions p s) 40 (dropdownHeight p s) 5
          scrollTop)) < length (filteredOptions p s)"
    by (intro window_smaller) simp_all
  with assms(1) show ?thesis
    by (simp add: renderVirtualItems_def virtualScrollProps_def ITEM_HEIGHT_def)
qed

lemma filteredOptions_initial:
  "\<not> p_loading p \<Longrightarrow> filteredOptions p (initial_state b) = p_options p"
  by (simp add: filteredOptions_def initial_state_def filterOptions_def trim_def)

text \<open>
  Claim C4, as amended. For every item list, positive row height, overscan and
  container height that are not negative, and every scroll offset:
  when the visible range does not end above the list
  (\<open>0 \<le> scrollTop + containerHeight\<close>), the window is exactly the rows, each with its
  own index, from \<open>max 0 (floor (scrollTop / itemHeight) - overscan)\<close> to
  \<open>min (n - 1) (ceil ((scrollTop + containerHeight) / itemHeight) + overscan)\<close>; it
  contains every row of the list within \<open>overscan\<close> rows of a row that intersects the
  visible range, every row in it is within \<open>overscan\<close> rows above or \<open>overscan + 1\<close>
  rows below such a row, and it has at most
  \<open>ceil (containerHeight / itemHeight) + 2 * overscan + 2\<close> rows. For every scroll
  offset the window has fewer rows than the list whenever the list has more items
  than that bound.

  In the component (row height 40, overscan 5), virtual scrolling is active exactly
  when \<^verbatim>\<open>enableVirtualScroll\<close> is \<^verbatim>\<open>true\<close>, or is not given and the number of filtered
  options exceeds the threshold of 100. Whenever it is active, the number of filtered
  options exceeds 100 and \<^verbatim>\<open>maxHeight\<close> is between 0 and 3520 (the default is 240),
  fewer rows than filtered options are rendered. When it is not active, all filtered
  options are rendered.
\<close>

theorem virtual_window:
  "(0 < itemHeight \<and> 0 \<le> overscan \<and> 0 \<le> containerHeight \<longrightarrow>
      (0 \<le> scrollTop + containerHeight \<longrightarrow>
         visibleItems (useVirtualScroll items itemHeight containerHeight overscan scrollTop)
           = map (\<lambda>i. (items ! nat i, i))
               [max 0 (floor_div scrollTop itemHeight - overscan) ..
                min (int (length items) - 1)
                    (ceil_div (scrollTop + containerHeight) itemHeight + overscan)] \<and>
         (\<forall>i j. 0 \<le> i \<and> i < int (length items) \<and>
                row_visible itemHeight scrollTop containerHeight j \<and>
                j - overscan \<le> i \<and> i \<le> j + overscan \<longrightarrow>
                i \<in> snd ` set (visibleItems
                       (useVirtualScroll items itemHeight containerHeight overscan scrollTop))) \<and>
         (\<forall>i. i \<in> snd ` set (visibleItems
                       (useVirtualScroll items itemHeight containerHeight overscan scrollTop)) \<longrightarrow>
              0 \<le> i \<and> i < int (length items) \<and>
              (\<exists>j. row_visible itemHeight scrollTop containerHeight j \<and>
                   j - overscan \<le> i \<and> i \<le> j + overscan + 1)) \<and>
         int (length (visibleItems
                (useVirtualScroll items itemHeight containerHeight overscan scrollTop)))
           \<le> ceil_div containerHeight itemHeight + 2 * overscan + 2) \<and>
      (ceil_div containerHeight itemHeight + 2 * overscan + 2 < int (length items) \<longrightarrow>
         length (visibleItems
                   (useVirtualScroll items itemHeight containerHeight overscan scrollTop))
           < length items)) \<and>
   (shouldUseVirtualScroll p s \<longleftrightarrow>
      p_enableVirtualScroll p = Some True \<or>
      (p_enableVirtualScroll p = None \<and>
       LARGE_LIST_THRESHOLD < length (filteredOptions p s))) \<and>
   (shouldUseVirtualScroll p s \<and> LARGE_LIST_THRESHOLD < length (filteredOptions p s) \<and>
    0 \<le> maxHeight p \<and> maxHeight p \<le> 3520 \<longrightarrow>
      length (renderVirtualItems p s scrollTop) < length (filteredOptions p s)) \<and>
   (\<not> shouldUseVirtualScroll p s \<longrightarrow>
      renderVirtualItems p s scrollTop = filteredOptions p s)"
proof (intro conjI impI allI)
  assume a: "0 < itemHeight \<and> 0 \<le> overscan \<and> 0 \<le> containerHeight"
    and b: "0 \<le> scrollTop + containerHeight"
  from a b show "visibleItems
       (useVirtualScroll items itemHeight containerHeight overscan scrollTop)
      = map (\<lambda>i. (items ! nat i, i))
          [max 0 (floor_div scrollTop itemHeight - overscan) ..
           min (int (length items) - 1)
               (ceil_div (scrollTop + containerHeight) itemHeight + overscan)]"
    using visibleItems_range [of itemHeight overscan scrollTop containerHeight items]
    by (simp add: startIndex_def endIndex_def)
  from a b show "int (length (visibleItems
                (useVirtualScroll items itemHeight containerHeight overscan scrollTop)))
           \<le> ceil_div containerHeight itemHeight + 2 * overscan + 2"
    by (intro window_size) simp_all
next
  fix i j
  assume a: "0 < itemHeight \<and> 0 \<le> overscan \<and> 0 \<le> containerHeight"
    and b: "0 \<le> scrollTop + containerHeight"
    and c: "0 \<le> i \<and> i < int (length items) \<and>
            row_visible itemHeight scrollTop containerHeight j \<and>
            j - overscan \<le> i \<and> i \<le> j + overscan"
  then show "i \<in> snd ` set (visibleItems
                 (useVirtualScroll items itemHeight containerHeight overscan scrollTop))"
    by (intro window_superset [where j = j]) simp_all
next
  fix i
  assume a: "0 < itemHeight \<and> 0 \<le> overscan \<and> 0 \<le> containerHeight"
    and b: "0 \<le> scrollTop + containerHeight"
    and c: "i \<in> snd ` set (visibleItems
                 (useVirtualScroll items itemHeight containerHeight overscan scrollTop))"
  from a have h: "0 < itemHeight" and ov: "0 \<le> overscan" and ch: "0 \<le> containerHeight"
    by simp_all
  from window_at_most_one_more [OF h ov b ch c]
  show "0 \<le> i" "i < int (length items)"
    "\<exists>j. row_visible itemHeight scrollTop containerHeight j \<and>
         j - overscan \<le> i \<and> i \<le> j + overscan + 1"
    by blast+
next
  assume a: "0 < itemHeight \<and> 0 \<le> overscan \<and> 0 \<le> containerHeight"
    and n: "ceil_div containerHeight itemHeight + 2 * overscan + 2 < int (length items)"
  then show "length (visibleItems
                   (useVirtualScroll items itemHeight containerHeight overscan scrollTop))
           < length items"
    by (intro window_smaller) simp_all
next
  show "shouldUseVirtualScroll p s \<longleftrightarrow>
      p_enableVirtualScroll p = Some True \<or>
      (p_enableVirtualScroll p = None \<and>
       LARGE_LIST_THRESHOLD < length (filteredOptions p s))"
    by (rule shouldUseVirtualScroll_iff)
next
  assume c: "shouldUseVirtualScroll p s \<and>
    LARGE_LIST_THRESHOLD < length (filteredOptions p s) \<and>
    0 \<le> maxHeight p \<and> maxHeight p \<le> 3520"
  then show "length (renderVirtualItems p s scrollTop) < length (filteredOptions p s)"
    by (intro component_window_smaller) simp_all
next
  assume "\<not> shouldUseVirtualScroll p s"
  then show "renderVirtualItems p s scrollTop = filteredOptions p s"
    by (simp add: renderVirtualItems_def)
qed

theorem virtual_window_witness:
  "map snd (visibleItems (useVirtualScroll [0..<20::nat] 40 240 5 10))
     = [0, 1, 2, 3, 4, 5, 6, 7, 8, 9, 10, 11, 12] \<and>
   row_visible 40 10 240 6 \<and>
   11 \<in> snd ` set (visibleItems (useVirtualScroll [0..<20::nat] 40 240 5 10)) \<and>
   int (length (visibleItems (useVirtualScroll [0..<20::nat] 40 240 5 10)))
     \<le> ceil_div 240 40 + 2 * 5 + 2 \<and>
   ceil_div 240 40 + 2 * 5 + 2 = 18 \<and>
   length (visibleItems (useVirtualScroll [0..<20::nat] 40 240 5 10)) < length [0..<20::nat] \<and>
   LARGE_LIST_THRESHOLD < length (filteredOptions (large_props 101 240) (initial_state False)) \<and>
   maxHeight (large_props 101 240) = 240 \<and>
   shouldUseVirtualScroll (large_props 101 240) (initial_state False) \<and>
   length (renderVirtualItems (large_props 101 240) (initial_state False) 10)
     < length (filteredOptions (large_props 101 240) (initial_state False)) \<and>
   shouldUseVirtualScroll
     ((large_props 200 240)\<lparr>p_enableVirtualScroll := Some True\<rparr>) (initial_state False) \<and>
   length (renderVirtualItems
       ((large_props 200 240)\<lparr>p_enableVirtualScroll := Some True\<rparr>) (initial_state False) 10)
     < length (filteredOptions
         ((large_props 200 240)\<lparr>p_enableVirtualScroll := Some True\<rparr>)
         (initial_state False)) \<and>
   \<not> shouldUseVirtualScroll
     ((large_props 200 240)\<lparr>p_enableVirtualScroll := Some False\<rparr>) (initial_state False) \<and>
   renderVirtualItems
       ((large_props 200 240)\<lparr>p_enableVirtualScroll := Some False\<rparr>) (initial_state False) 10
     = filteredOptions
         ((large_props 200 240)\<lparr>p_enableVirtualScroll := Some False\<rparr>)
         (initial_state False)"
proof -
  let ?on = "(large_props 200 240)\<lparr>p_enableVirtualScroll := Some True\<rparr>"
  let ?off = "(large_props 200 240)\<lparr>p_enableVirtualScroll := Some False\<rparr>"
  note w = virtual_window [of 40 5 240 10 "[0..<20::nat]" "large_props 101 240"
      "initial_state False"]
  note w_on = virtual_window [of 40 5 240 10 "[0..<20::nat]" ?on "initial_state False"]
  note w_off = virtual_window [of 40 5 240 10 "[0..<20::nat]" ?off "initial_state False"]
  have pre: "0 < (40::int) \<and> 0 \<le> (5::int) \<and> 0 \<le> (240::int)" by simp
  have pre2: "0 \<le> (10::int) + 240" by simp
  note w1 = w [THEN conjunct1, THEN mp, OF pre]
  note w2 = w1 [THEN conjunct1, THEN mp, OF pre2]
  note sup = w2 [THEN conjunct2, THEN conjunct1]
  note size = w2 [THEN conjunct2, THEN conjunct2, THEN conjunct2]
  note small = w1 [THEN conjunct2]
  note active = w [THEN conjunct2, THEN conjunct1]
  note fewer = w [THEN conjunct2, THEN conjunct2, THEN conjunct1]
  note active_on = w_on [THEN conjunct2, THEN conjunct1]
  note fewer_on = w_on [THEN conjunct2, THEN conjunct2, THEN conjunct1]
  note active_off = w_off [THEN conjunct2, THEN conjunct1]
  note all_off = w_off [THEN conjunct2, THEN conjunct2, THEN conjunct2]
  have rv: "row_visible 40 10 240 6" by (simp add: row_visible_def)
  have cd: "ceil_div 240 40 + 2 * 5 + 2 = 18" by (simp add: ceil_div_def)
  have th: "LARGE_LIST_THRESHOLD
      < length (filteredOptions (large_props 101 240) (initial_state False))"
    by (simp add: filteredOptions_large length_many_options LARGE_LIST_THRESHOLD_def)
  have mh: "maxHeight (large_props 101 240) = 240"
    by (simp add: maxHeight_def large_props_def)
  have ev: "p_enableVirtualScroll (large_props 101 240) = None"
    by (simp add: large_props_def)
  have "(0::int) \<le> 11 \<and> 11 < int (length [0..<20::nat]) \<and> row_visible 40 10 240 6 \<and>
        (6::int) - 5 \<le> 11 \<and> (11::int) \<le> 6 + 5" using rv by simp
  with sup have in11: "11 \<in> snd ` set (visibleItems (useVirtualScroll [0..<20::nat] 40 240 5 10))"
    by blast
  have "ceil_div 240 40 + 2 * 5 + 2 < int (length [0..<20::nat])" using cd by simp
  with small
  have lt: "length (visibleItems (useVirtualScroll [0..<20::nat] 40 240 5 10))
      < length [0..<20::nat]" by blast
  from active ev th have use: "shouldUseVirtualScroll (large_props 101 240) (initial_state False)"
    by blast
  have "shouldUseVirtualScroll (large_props 101 240) (initial_state False) \<and>
    LARGE_LIST_THRESHOLD < length (filteredOptions (large_props 101 240) (initial_state False)) \<and>
    0 \<le> maxHeight (large_props 101 240) \<and> maxHeight (large_props 101 240) \<le> 3520"
    using use th mh by simp
  with fewer have c: "length (renderVirtualItems (large_props 101 240) (initial_state False) 10)
      < length (filteredOptions (large_props 101 240) (initial_state False))" by blast
  have f_on: "filteredOptions ?on (initial_state False) = many_options 200"
    using filteredOptions_initial [of ?on False] by (simp add: large_props_def)
  have f_off: "filteredOptions ?off (initial_state False) = many_options 200"
    using filteredOptions_initial [of ?off False] by (simp add: large_props_def)
  have e_on: "p_enableVirtualScroll ?on = Some True" by simp
  have e_off: "p_enableVirtualScroll ?off = Some False" by simp
  have mh_on: "maxHeight ?on = 240" by (simp add: maxHeight_def large_props_def)
  from active_on e_on have use_on: "shouldUseVirtualScroll ?on (initial_state False)"
    by blast
  have "shouldUseVirtualScroll ?on (initial_state False) \<and>
    LARGE_LIST_THRESHOLD < length (filteredOptions ?on (initial_state False)) \<and>
    0 \<le> maxHeight ?on \<and> maxHeight ?on \<le> 3520"
    using use_on mh_on by (simp add: f_on length_many_options LARGE_LIST_THRESHOLD_def)
  with fewer_on have c_on: "length (renderVirtualItems ?on (initial_state False) 10)
      < length (filteredOptions ?on (initial_state False))" by blast
  from active_off e_off have use_off: "\<not> shouldUseVirtualScroll ?off (initial_state False)"
    by simp
  with all_off have c_off: "renderVirtualItems ?off (initial_state False) 10
      = filteredOptions ?off (initial_state False)" by blast
  from example_window rv in11 size cd lt th mh use c use_on c_on use_off c_off
  show ?thesis by blast
qed

text \<open>
  Claim C4 as stated fails twice. With row height 40, container height 240, overscan 5
  and scroll offset 10, the rows that intersect the visible range are 0 to 6, and row 12
  is in the window although it is not within 5 rows of any of them. With 101 options
  and \<^verbatim>\<open>maxHeight\<close> 4040 the threshold is exceeded, virtual scrolling is active, and all
  101 rows are rendered.
\<close>

theorem virtual_window_counterexample:
  "map snd (visibleItems (useVirtualScroll [0..<20::nat] 40 240 5 10))
     = [0, 1, 2, 3, 4, 5, 6, 7, 8, 9, 10, 11, 12] \<and>
   \<not> (\<exists>j. row_visible 40 10 240 j \<and> j - 5 \<le> 12 \<and> 12 \<le> j + 5) \<and>
   LARGE_LIST_THRESHOLD
     < length (filteredOptions (large_props 101 4040) (initial_state False)) \<and>
   shouldUseVirtualScroll (large_props 101 4040) (initial_state False) \<and>
   length (renderVirtualItems (large_props 101 4040) (initial_state False) 0)
     = length (filteredOptions (large_props 101 4040) (initial_state False))"
proof -
  have "\<not> (\<exists>j. row_visible 40 10 240 j \<and> j - 5 \<le> 12 \<and> 12 \<le> j + 5)"
    by (auto simp: row_visible_def)
  moreover have "LARGE_LIST_THRESHOLD
     < length (filteredOptions (large_props 101 4040) (initial_state False))"
    by (simp add: filteredOptions_large length_many_options LARGE_LIST_THRESHOLD_def)
  moreover have "length (filteredOptions (large_props 101 4040) (initial_state False)) = 101"
    by (simp add: filteredOptions_large length_many_options)
  ultimately show ?thesis using example_window tall_window by simp
qed

section \<open>The component: opening, closing and the highlight\<close>

lemma handleKeyDown_total: "\<exists>r. handleKeyDown options opn hi key = Inr r"
  by (auto simp: handleKeyDown_def elem_at_def Let_def)

lemma handleKeyDown_closed:
  "\<exists>cbs. handleKeyDown options False hi key = Inr (hi, cbs) \<and> (cbs = [] \<or> cbs = [OnOpen])"
  by (simp add: handleKeyDown_def)

lemma handleSelect_highlightedIndex:
  "highlightedIndex (fst (handleSelect p s option)) = highlightedIndex s"
  by (auto simp: handleClose_def Let_def split: current.splits selection.splits)

lemma keyDown_closed_highlight:
  assumes "\<not> isOpen s" "keyDown p s key = Inr (s', out)"
  shows "highlightedIndex s' = highlightedIndex s"
proof -
  from handleKeyDown_closed [of "filteredOptions p s" "highlightedIndex s" key]
  obtain cbs where cbs: "handleKeyDown (filteredOptions p s) False (highlightedIndex s) key
      = Inr (highlightedIndex s, cbs)" "cbs = [] \<or> cbs = [OnOpen]" by blast
  from cbs(2) show ?thesis
  proof
    assume "cbs = []"
    with assms cbs(1) show ?thesis by (auto simp: keyDown_def)
  next
    assume "cbs = [OnOpen]"
    with assms cbs(1) show ?thesis by (auto simp: keyDown_def handleOpen_def)
  qed
qed

lemma dispatch_closed_highlight:
  assumes "\<not> isOpen s" "dispatch p s e = Inr (s', out)"
  shows "highlightedIndex s' = highlightedIndex s"
proof (cases e)
  case (KeyDown key)
  with assms show ?thesis by (simp add: keyDown_closed_highlight)
next
  case (TriggerKeyDown key)
  with assms show ?thesis
    by (auto simp: handleTriggerKeyDown_def handleOpen_def handleClose_def split: if_splits)
next
  case TriggerClick
  with assms show ?thesis by (auto simp: handleOpen_def)
next
  case ClickOutside
  with assms show ?thesis by (auto simp: handleClose_def)
next
  case (OptionClick option)
  with assms have "s' = s \<or> s' = fst (handleSelect p s option)"
    by (auto split: if_splits)
  then show ?thesis using handleSelect_highlightedIndex [of p s option] by auto
next
  case (TagRemove option)
  with assms have "s' = fst (handleSelect p s option)" by auto
  then show ?thesis using handleSelect_highlightedIndex [of p s option] by auto
next
  case ClearClick
  with assms show ?thesis by (auto simp: handleClear_def Let_def)
next
  case (SearchChange q)
  with assms show ?thesis by auto
qed

lemma keyDown_total: "\<exists>r. keyDown p s key = Inr r"
proof -
  from handleKeyDown_total obtain r where
    "handleKeyDown (filteredOptions p s) (isOpen s) (highlightedIndex s) key = Inr r" by blast
  then show ?thesis by (cases r) (simp add: keyDown_def)
qed

lemma dispatch_total: "\<exists>s' out. dispatch p s e = Inr (s', out)"
proof (cases e)
  case (KeyDown key)
  from keyDown_total [of p s key] obtain r where "keyDown p s key = Inr r" by blast
  with KeyDown show ?thesis by (cases r) simp
next
  case (OptionClick option)
  then show ?thesis by (cases "handleSelect p s option") (simp del: handleSelect.simps)
next
  case (TagRemove option)
  then show ?thesis by (cases "handleSelect p s option") (simp del: handleSelect.simps)
next
  case ClearClick
  then show ?thesis by (cases "handleClear p s") simp
qed simp_all

lemma step_total: "\<exists>s' out. step p s e = Inr (s', out)"
proof -
  from dispatch_total obtain s' out where "dispatch p s e = Inr (s', out)" by blast
  then show ?thesis by (simp add: step_def)
qed

lemma step_invariant:
  assumes "closed_no_highlight s" "step p s e = Inr (s', out)"
  shows "closed_no_highlight s'"
proof -
  from assms(2) obtain s1 where d: "dispatch p s e = Inr (s1, out)" and s': "s' = effects s s1"
    by (auto simp: step_def split: sum.splits)
  show ?thesis
  proof (cases "isOpen s")
    case True
    then show ?thesis by (simp add: s' effects_def closed_no_highlight_def)
  next
    case False
    from False d have "highlightedIndex s1 = highlightedIndex s"
      by (rule dispatch_closed_highlight)
    with False assms(1) show ?thesis by (simp add: s' effects_def closed_no_highlight_def)
  qed
qed

lemma step_toggle_resets:
  assumes "closed_no_highlight s" "step p s e = Inr (s', out)" "isOpen s' \<noteq> isOpen s"
  shows "highlightedIndex s' = - 1"
proof -
  from assms(2) obtain s1 where d: "dispatch p s e = Inr (s1, out)" and s': "s' = effects s s1"
    by (auto simp: step_def split: sum.splits)
  show ?thesis
  proof (cases "isOpen s")
    case True
    with assms(3) show ?thesis by (simp add: s' effects_def split: if_splits)
  next
    case False
    from False d have "highlightedIndex s1 = highlightedIndex s"
      by (rule dispatch_closed_highlight)
    with False assms(1) show ?thesis by (simp add: s' effects_def closed_no_highlight_def)
  qed
qed

lemma exec_invariant:
  "closed_no_highlight s \<Longrightarrow> \<exists>s'. exec s trace = Inr s' \<and> closed_no_highlight s'"
proof (induction trace arbitrary: s)
  case Nil
  then show ?case by simp
next
  case (Cons pe trace)
  obtain p e where pe: "pe = (p, e)" by (cases pe)
  from step_total obtain s1 out where st: "step p s e = Inr (s1, out)" by blast
  with Cons.prems have "closed_no_highlight s1" by (rule step_invariant)
  from Cons.IH [OF this] obtain s' where "exec s1 trace = Inr s'" "closed_no_highlight s'"
    by blast
  with st pe show ?case by simp
qed

text \<open>
  Claim C7. From the initial state of the component, after any sequence of events
  under any props, no handler has failed, a closed list has no highlight
  (\<open>highlightedIndex = -1\<close>), and every further step that opens or closes the list
  leaves the highlight at \<open>-1\<close>.
\<close>

theorem highlight_reset_on_open_close:
  "\<exists>s. exec (initial_state multiple) trace = Inr s \<and>
       (\<not> isOpen s \<longrightarrow> highlightedIndex s = - 1) \<and>
       (\<forall>p e. \<exists>s' out. step p s e = Inr (s', out) \<and>
            (isOpen s' \<noteq> isOpen s \<longrightarrow> highlightedIndex s' = - 1))"
proof -
  have "closed_no_highlight (initial_state multiple)"
    by (simp add: closed_no_highlight_def initial_state_def)
  from exec_invariant [OF this] obtain s where s: "exec (initial_state multiple) trace = Inr s"
    "closed_no_highlight s" by blast
  have "\<exists>s' out. step p s e = Inr (s', out) \<and>
            (isOpen s' \<noteq> isOpen s \<longrightarrow> highlightedIndex s' = - 1)" for p e
  proof -
    from step_total obtain s' out where st: "step p s e = Inr (s', out)" by blast
    with s(2) have "isOpen s' \<noteq> isOpen s \<longrightarrow> highlightedIndex s' = - 1"
      by (auto dest: step_toggle_resets)
    with st show ?thesis by blast
  qed
  with s show ?thesis by (auto simp: closed_no_highlight_def)
qed

theorem highlight_reset_witness:
  "exec (initial_state True)
     [(example_props, TriggerClick), (example_props, KeyDown ''ArrowDown'')]
     = Inr \<lparr>isOpen = True, searchQuery = [], internalValue = Value (Multi []),
             highlightedIndex = 0\<rparr> \<and>
   step example_props
     \<lparr>isOpen = True, searchQuery = [], internalValue = Value (Multi []),
      highlightedIndex = 0\<rparr> (KeyDown ''Escape'')
     = Inr (\<lparr>isOpen = False, searchQuery = [], internalValue = Value (Multi []),
              highlightedIndex = - 1\<rparr>, []) \<and>
   (\<exists>s. exec (initial_state True)
          [(example_props, TriggerClick), (example_props, KeyDown ''ArrowDown'')] = Inr s \<and>
        (\<forall>p e. \<exists>s' out. step p s e = Inr (s', out) \<and>
             (isOpen s' \<noteq> isOpen s \<longrightarrow> highlightedIndex s' = - 1)))"
proof -
  have run: "exec (initial_state True)
     [(example_props, TriggerClick), (example_props, KeyDown ''ArrowDown'')]
     = Inr \<lparr>isOpen = True, searchQuery = [], internalValue = Value (Multi []),
             highlightedIndex = 0\<rparr>"
    by code_simp
  have esc: "step example_props
     \<lparr>isOpen = True, searchQuery = [], internalValue = Value (Multi []),
      highlightedIndex = 0\<rparr> (KeyDown ''Escape'')
     = Inr (\<lparr>isOpen = False, searchQuery = [], internalValue = Value (Multi []),
              highlightedIndex = - 1\<rparr>, [])"
    by code_simp
  from highlight_reset_on_open_close [of True
      "[(example_props, TriggerClick), (example_props, KeyDown ''ArrowDown'')]"]
  have "\<exists>s. exec (initial_state True)
          [(example_props, TriggerClick), (example_props, KeyDown ''ArrowDown'')] = Inr s \<and>
        (\<forall>p e. \<exists>s' out. step p s e = Inr (s', out) \<and>
             (isOpen s' \<noteq> isOpen s \<longrightarrow> highlightedIndex s' = - 1))"
    by blast
  with run esc show ?thesis by blast
qed

section \<open>The component: selection\<close>

lemma effects_same: "effects s s = s"
  by (simp add: effects_def)

lemma enter_on_disabled:
  assumes "0 \<le> hi" "hi < int (length options)" "is_disabled (options ! nat hi)"
    "key = ''Enter'' \<or> key = '' ''"
  shows "handleKeyDown options True hi key = Inr (hi, [])"
  using assms by (auto simp: handleKeyDown_def elem_at_def)

text \<open>
  Claim C2. While the list is open and the highlighted index points at a disabled
  option, Enter and Space invoke no callback, so the state, and with it the value, is
  unchanged and no change is notified. The same holds on every other path that
  selects: \<^verbatim>\<open>handleSelect\<close> on a disabled option, a click on it, and the remove button
  of its tag.
\<close>

theorem disabled_option_never_selected:
  "(isOpen s \<and> 0 \<le> highlightedIndex s \<and>
    highlightedIndex s < int (length (filteredOptions p s)) \<and>
    is_disabled (filteredOptions p s ! nat (highlightedIndex s)) \<and>
    (key = ''Enter'' \<or> key = '' '') \<longrightarrow>
      handleKeyDown (filteredOptions p s) (isOpen s) (highlightedIndex s) key
        = Inr (highlightedIndex s, []) \<and>
      step p s (KeyDown key) = Inr (s, [])) \<and>
   (is_disabled option \<longrightarrow>
      handleSelect p s option = (s, []) \<and>
      step p s (OptionClick option) = Inr (s, []) \<and>
      step p s (TagRemove option) = Inr (s, []))"
proof (intro conjI impI)
  assume a: "isOpen s \<and> 0 \<le> highlightedIndex s \<and>
    highlightedIndex s < int (length (filteredOptions p s)) \<and>
    is_disabled (filteredOptions p s ! nat (highlightedIndex s)) \<and>
    (key = ''Enter'' \<or> key = '' '')"
  then have hk: "handleKeyDown (filteredOptions p s) True (highlightedIndex s) key
        = Inr (highlightedIndex s, [])"
    by (intro enter_on_disabled) simp_all
  with a show "handleKeyDown (filteredOptions p s) (isOpen s) (highlightedIndex s) key
        = Inr (highlightedIndex s, [])" by simp
  from a hk have "keyDown p s key = Inr (s, [])" by (simp add: keyDown_def)
  then show "step p s (KeyDown key) = Inr (s, [])"
    by (simp add: step_def effects_same)
next
  assume d: "is_disabled option"
  then show "handleSelect p s option = (s, [])" by simp
  from d show "step p s (OptionClick option) = Inr (s, [])"
    by (simp add: step_def effects_same)
  from d show "step p s (TagRemove option) = Inr (s, [])"
    by (simp add: step_def effects_same)
qed

theorem disabled_option_witness:
  "isOpen \<lparr>isOpen = True, searchQuery = [], internalValue = Value (Multi [apple]),
            highlightedIndex = 1\<rparr> \<and>
   filteredOptions example_props
     \<lparr>isOpen = True, searchQuery = [], internalValue = Value (Multi [apple]),
      highlightedIndex = 1\<rparr> ! 1 = banana \<and>
   is_disabled banana \<and>
   step example_props
     \<lparr>isOpen = True, searchQuery = [], internalValue = Value (Multi [apple]),
      highlightedIndex = 1\<rparr> (KeyDown ''Enter'')
     = Inr (\<lparr>isOpen = True, searchQuery = [], internalValue = Value (Multi [apple]),
              highlightedIndex = 1\<rparr>, []) \<and>
   step example_props
     \<lparr>isOpen = True, searchQuery = [], internalValue = Value (Multi [apple]),
      highlightedIndex = 1\<rparr> (KeyDown '' '')
     = Inr (\<lparr>isOpen = True, searchQuery = [], internalValue = Value (Multi [apple]),
              highlightedIndex = 1\<rparr>, []) \<and>
   step example_props
     \<lparr>isOpen = True, searchQuery = [], internalValue = Value (Multi [apple]),
      highlightedIndex = 1\<rparr> (OptionClick banana)
     = Inr (\<lparr>isOpen = True, searchQuery = [], internalValue = Value (Multi [apple]),
              highlightedIndex = 1\<rparr>, [])"
proof -
  let ?s = "\<lparr>isOpen = True, searchQuery = [], internalValue = Value (Multi [apple]),
      highlightedIndex = 1\<rparr>"
  have f: "filteredOptions example_props ?s = example_options" by code_simp
  have b: "example_options ! 1 = banana" by code_simp
  have d: "is_disabled banana" by code_simp
  have h: "isOpen ?s \<and> 0 \<le> highlightedIndex ?s \<and>
    highlightedIndex ?s < int (length (filteredOptions example_props ?s)) \<and>
    is_disabled (filteredOptions example_props ?s ! nat (highlightedIndex ?s))"
    using d b by (simp add: f) (simp add: example_options_def)
  from disabled_option_never_selected [of ?s example_props "''Enter''" banana] h d
  have 1: "step example_props ?s (KeyDown ''Enter'') = Inr (?s, [])"
    "step example_props ?s (OptionClick banana) = Inr (?s, [])" by blast+
  from disabled_option_never_selected [of ?s example_props "'' ''" banana] h
  have 2: "step example_props ?s (KeyDown '' '') = Inr (?s, [])" by blast
  from 1 2 f b d show ?thesis by simp
qed

lemma selection_after_multi:
  assumes "p_multiple p" "currentValue p s = Value (Multi cur)"
  shows "selection_after p s option =
     Value (Multi (if is_disabled option then cur
                   else if list_ex (\<lambda>item. value item = value option) cur
                    then filter (\<lambda>item. value item \<noteq> value option) cur
                    else cur @ [option]))"
  using assms by (simp add: selection_after_def Let_def)

lemma selection_after_uncontrolled:
  assumes "p_value p = None"
  shows "currentValue p (fst (handleSelect p s option)) = selection_after p s option"
  using assms
  by (auto simp: selection_after_def currentValue_def Let_def handleClose_def
      split: current.splits selection.splits)

lemma handleSelect_multi:
  assumes "p_multiple p" "currentValue p s = Value (Multi cur)" "\<not> is_disabled option"
  shows "snd (handleSelect p s option) =
     [Value (Multi (if list_ex (\<lambda>item. value item = value option) cur
                    then filter (\<lambda>item. value item \<noteq> value option) cur
                    else cur @ [option]))]"
  using assms by (simp add: Let_def)

lemma selected_iff:
  "list_ex (\<lambda>item. value item = value option) xs \<longleftrightarrow> value option \<in> value ` set xs"
proof
  assume "list_ex (\<lambda>item. value item = value option) xs"
  then obtain item where "item \<in> set xs" "value item = value option"
    by (auto simp: list_ex_iff)
  then show "value option \<in> value ` set xs" by (metis imageI)
next
  assume "value option \<in> value ` set xs"
  then obtain item where "item \<in> set xs" "value option = value item" by blast
  then show "list_ex (\<lambda>item. value item = value option) xs"
    by (auto simp: list_ex_iff)
qed

text \<open>
  Claim C5. In multi mode, let the current value be the array \<open>cur\<close>, and let the
  option be toggled twice in succession, the second time in a state whose current value
  is the selection after the first toggle. A disabled option is not toggled: nothing
  changes and nothing is notified. For an option that is not disabled, each toggle
  notifies the new selection, and membership is by value equality: the first toggle
  flips whether the option's value is among the selected values; if it was not, the
  option is appended at the end; if it was, every selected item with that value is
  removed; in both cases the items with other values stay in their order. The second
  toggle flips membership back, so the selection after it has the same set of values
  as \<open>cur\<close>: it is \<open>cur\<close> itself if the value was not selected, and otherwise the
  remaining items followed by the option. An uncontrolled component holds the selection
  after the toggle as its current value.
\<close>

theorem multi_toggle_twice:
  assumes "p_multiple p" and "currentValue p s = Value (Multi cur)"
    and "p_multiple p'" and "currentValue p' s' = selection_after p s option"
  shows "(is_disabled option \<longrightarrow>
            handleSelect p s option = (s, []) \<and>
            selection_after p s option = Value (Multi cur) \<and>
            selection_after p' s' option = Value (Multi cur)) \<and>
         (\<not> is_disabled option \<longrightarrow>
            (\<exists>cur1 cur2.
               snd (handleSelect p s option) = [Value (Multi cur1)] \<and>
               selection_after p s option = Value (Multi cur1) \<and>
               snd (handleSelect p' s' option) = [Value (Multi cur2)] \<and>
               selection_after p' s' option = Value (Multi cur2) \<and>
               (value option \<in> value ` set cur1 \<longleftrightarrow> value option \<notin> value ` set cur) \<and>
               (value option \<in> value ` set cur2 \<longleftrightarrow> value option \<in> value ` set cur) \<and>
               (value option \<notin> value ` set cur \<longrightarrow> cur1 = cur @ [option] \<and> cur2 = cur) \<and>
               (value option \<in> value ` set cur \<longrightarrow>
                  cur1 = filter (\<lambda>item. value item \<noteq> value option) cur \<and>
                  cur2 = cur1 @ [option]) \<and>
               filter (\<lambda>item. value item \<noteq> value option) cur1
                 = filter (\<lambda>item. value item \<noteq> value option) cur \<and>
               set (map value cur2) = set (map value cur) \<and>
               (p_value p = None \<longrightarrow>
                  currentValue p (fst (handleSelect p s option)) = Value (Multi cur1))))"
proof (intro conjI impI)
  assume d: "is_disabled option"
  then show "handleSelect p s option = (s, [])" by simp
  from d assms(1,2) show a1: "selection_after p s option = Value (Multi cur)"
    by (simp add: selection_after_multi del: handleSelect.simps)
  with assms(4) have "currentValue p' s' = Value (Multi cur)" by simp
  with assms(3) d show "selection_after p' s' option = Value (Multi cur)"
    by (simp add: selection_after_multi del: handleSelect.simps)
next
  assume nd: "\<not> is_disabled option"
  let ?v = "value option"
  let ?sel = "\<lambda>xs. list_ex (\<lambda>item. value item = ?v) xs"
  let ?rm = "\<lambda>xs. filter (\<lambda>item. value item \<noteq> ?v) xs"
  let ?tg = "\<lambda>xs. if ?sel xs then ?rm xs else xs @ [option]"
  define cur1 where "cur1 = ?tg cur"
  define cur2 where "cur2 = ?tg cur1"
  have h1: "snd (handleSelect p s option) = [Value (Multi cur1)]"
    unfolding cur1_def using assms(1,2) nd by (rule handleSelect_multi)
  have c1: "selection_after p s option = Value (Multi cur1)"
    using h1 by (simp add: selection_after_def del: handleSelect.simps)
  from assms(4) c1 have cv': "currentValue p' s' = Value (Multi cur1)" by simp
  have h2: "snd (handleSelect p' s' option) = [Value (Multi cur2)]"
    unfolding cur2_def using assms(3) cv' nd by (rule handleSelect_multi)
  have c2: "selection_after p' s' option = Value (Multi cur2)"
    using h2 by (simp add: selection_after_def del: handleSelect.simps)
  have not_in_rm: "?v \<notin> value ` set (?rm xs)" for xs by auto
  have in_app: "?v \<in> value ` set (xs @ [option])" for xs by simp
  have rm_id: "?v \<notin> value ` set xs \<Longrightarrow> ?rm xs = xs" for xs
    by (simp add: filter_id_conv) (metis imageI)
  have out: "?v \<notin> value ` set cur \<Longrightarrow> cur1 = cur @ [option] \<and> cur2 = cur"
  proof -
    assume n: "?v \<notin> value ` set cur"
    then have e1: "cur1 = cur @ [option]" by (simp add: cur1_def selected_iff)
    have "?sel cur1" unfolding e1 selected_iff by (rule in_app)
    then have "cur2 = ?rm cur1" by (simp add: cur2_def)
    also have "\<dots> = ?rm cur" by (simp add: e1)
    also have "\<dots> = cur" using n by (rule rm_id)
    finally show ?thesis using e1 by simp
  qed
  have inn: "?v \<in> value ` set cur \<Longrightarrow> cur1 = ?rm cur \<and> cur2 = cur1 @ [option]"
  proof -
    assume y: "?v \<in> value ` set cur"
    then have e1: "cur1 = ?rm cur" by (simp add: cur1_def selected_iff)
    have "\<not> ?sel cur1" unfolding e1 selected_iff by (rule not_in_rm)
    then have "cur2 = cur1 @ [option]" by (simp add: cur2_def)
    with e1 show ?thesis by simp
  qed
  have flip1: "?v \<in> value ` set cur1 \<longleftrightarrow> ?v \<notin> value ` set cur"
  proof (cases "?v \<in> value ` set cur")
    case True
    with inn have "cur1 = ?rm cur" by simp
    with True not_in_rm [of cur] show ?thesis by simp
  next
    case False
    with out have "cur1 = cur @ [option]" by simp
    with False in_app [of cur] show ?thesis by simp
  qed
  have flip2: "?v \<in> value ` set cur2 \<longleftrightarrow> ?v \<in> value ` set cur"
  proof (cases "?v \<in> value ` set cur")
    case True
    with inn have "cur2 = cur1 @ [option]" by simp
    with True in_app [of cur1] show ?thesis by simp
  next
    case False
    with out have "cur2 = cur" by simp
    with False show ?thesis by simp
  qed
  have ord: "?rm cur1 = ?rm cur" by (simp add: cur1_def)
  have vals: "set (map value cur2) = set (map value cur)"
  proof (cases "?v \<in> value ` set cur")
    case True
    with inn have e: "cur2 = ?rm cur @ [option]" by simp
    from True have "value ` set (?rm cur) \<union> {?v} = value ` set cur" by auto
    with e show ?thesis by simp
  next
    case False
    with out show ?thesis by simp
  qed
  have unc: "p_value p = None \<longrightarrow>
      currentValue p (fst (handleSelect p s option)) = Value (Multi cur1)"
    using c1 by (simp add: selection_after_uncontrolled del: handleSelect.simps)
  show "\<exists>cur1 cur2.
       snd (handleSelect p s option) = [Value (Multi cur1)] \<and>
       selection_after p s option = Value (Multi cur1) \<and>
       snd (handleSelect p' s' option) = [Value (Multi cur2)] \<and>
       selection_after p' s' option = Value (Multi cur2) \<and>
       (value option \<in> value ` set cur1 \<longleftrightarrow> value option \<notin> value ` set cur) \<and>
       (value option \<in> value ` set cur2 \<longleftrightarrow> value option \<in> value ` set cur) \<and>
       (value option \<notin> value ` set cur \<longrightarrow> cur1 = cur @ [option] \<and> cur2 = cur) \<and>
       (value option \<in> value ` set cur \<longrightarrow>
          cur1 = filter (\<lambda>item. value item \<noteq> value option) cur \<and>
          cur2 = cur1 @ [option]) \<and>
       filter (\<lambda>item. value item \<noteq> value option) cur1
         = filter (\<lambda>item. value item \<noteq> value option) cur \<and>
       set (map value cur2) = set (map value cur) \<and>
       (p_value p = None \<longrightarrow>
          currentValue p (fst (handleSelect p s option)) = Value (Multi cur1))"
  proof (intro exI conjI)
    show "snd (handleSelect p s option) = [Value (Multi cur1)]" by (rule h1)
    show "selection_after p s option = Value (Multi cur1)" by (rule c1)
    show "snd (handleSelect p' s' option) = [Value (Multi cur2)]" by (rule h2)
    show "selection_after p' s' option = Value (Multi cur2)" by (rule c2)
    show "value option \<in> value ` set cur1 \<longleftrightarrow> value option \<notin> value ` set cur"
      by (rule flip1)
    show "value option \<in> value ` set cur2 \<longleftrightarrow> value option \<in> value ` set cur"
      by (rule flip2)
    show "value option \<notin> value ` set cur \<longrightarrow> cur1 = cur @ [option] \<and> cur2 = cur"
      using out by blast
    show "value option \<in> value ` set cur \<longrightarrow>
          cur1 = filter (\<lambda>item. value item \<noteq> value option) cur \<and>
          cur2 = cur1 @ [option]"
      using inn by blast
    show "filter (\<lambda>item. value item \<noteq> value option) cur1
         = filter (\<lambda>item. value item \<noteq> value option) cur" by (rule ord)
    show "set (map value cur2) = set (map value cur)" by (rule vals)
    show "p_value p = None \<longrightarrow>
          currentValue p (fst (handleSelect p s option)) = Value (Multi cur1)" by (rule unc)
  qed
qed

theorem multi_toggle_twice_witness:
  "p_multiple example_props \<and>
   currentValue example_props
     \<lparr>isOpen = True, searchQuery = [], internalValue = Value (Multi [apple]),
      highlightedIndex = 2\<rparr> = Value (Multi [apple]) \<and>
   \<not> is_disabled cherry \<and>
   snd (handleSelect example_props
     \<lparr>isOpen = True, searchQuery = [], internalValue = Value (Multi [apple]),
      highlightedIndex = 2\<rparr> cherry) = [Value (Multi [apple, cherry])] \<and>
   currentValue example_props
     \<lparr>isOpen = True, searchQuery = [], internalValue = Value (Multi [apple, cherry]),
      highlightedIndex = 2\<rparr> = Value (Multi [apple, cherry]) \<and>
   snd (handleSelect example_props
     \<lparr>isOpen = True, searchQuery = [], internalValue = Value (Multi [apple, cherry]),
      highlightedIndex = 2\<rparr> cherry) = [Value (Multi [apple])] \<and>
   snd (handleSelect example_props
     \<lparr>isOpen = True, searchQuery = [], internalValue = Value (Multi [apple]),
      highlightedIndex = 2\<rparr> (apple\<lparr>label := ''Pomme'', oid := 7\<rparr>)) = [Value (Multi [])] \<and>
   (\<exists>cur1 cur2.
      snd (handleSelect example_props
        \<lparr>isOpen = True, searchQuery = [], internalValue = Value (Multi [apple]),
         highlightedIndex = 2\<rparr> cherry) = [Value (Multi cur1)] \<and>
      snd (handleSelect example_props
        \<lparr>isOpen = True, searchQuery = [], internalValue = Value (Multi [apple, cherry]),
         highlightedIndex = 2\<rparr> cherry) = [Value (Multi cur2)] \<and>
      value cherry \<in> value ` set cur1 \<and>
      value cherry \<notin> value ` set cur2 \<and>
      cur1 = [apple] @ [cherry] \<and> cur2 = [apple] \<and>
      set (map value cur2) = set (map value [apple]))"
proof -
  let ?s = "\<lparr>isOpen = True, searchQuery = [], internalValue = Value (Multi [apple]),
      highlightedIndex = 2\<rparr>"
  let ?s' = "\<lparr>isOpen = True, searchQuery = [], internalValue = Value (Multi [apple, cherry]),
      highlightedIndex = 2\<rparr>"
  have m: "p_multiple example_props" by code_simp
  have c: "currentValue example_props ?s = Value (Multi [apple])" by code_simp
  have nd: "\<not> is_disabled cherry" by code_simp
  have a1: "selection_after example_props ?s cherry = Value (Multi [apple, cherry])"
    by code_simp
  have h1: "snd (handleSelect example_props ?s cherry) = [Value (Multi [apple, cherry])]"
    by code_simp
  have c': "currentValue example_props ?s' = Value (Multi [apple, cherry])" by code_simp
  have h2: "snd (handleSelect example_props ?s' cherry) = [Value (Multi [apple])]"
    by code_simp
  have h3: "snd (handleSelect example_props ?s (apple\<lparr>label := ''Pomme'', oid := 7\<rparr>))
      = [Value (Multi [])]"
    by code_simp
  have out: "value cherry \<notin> value ` set [apple]" by code_simp
  from c' a1 have h: "currentValue example_props ?s' = selection_after example_props ?s cherry"
    by simp
  from multi_toggle_twice [OF m c m h, THEN conjunct2, THEN mp, OF nd]
  obtain cur1 cur2 where t:
    "snd (handleSelect example_props ?s cherry) = [Value (Multi cur1)]"
    "snd (handleSelect example_props ?s' cherry) = [Value (Multi cur2)]"
    "value cherry \<in> value ` set cur1 \<longleftrightarrow> value cherry \<notin> value ` set [apple]"
    "value cherry \<in> value ` set cur2 \<longleftrightarrow> value cherry \<in> value ` set [apple]"
    "value cherry \<notin> value ` set [apple] \<longrightarrow> cur1 = [apple] @ [cherry] \<and> cur2 = [apple]"
    "set (map value cur2) = set (map value [apple])"
    by blast
  from t out have "snd (handleSelect example_props ?s cherry) = [Value (Multi cur1)] \<and>
      snd (handleSelect example_props ?s' cherry) = [Value (Multi cur2)] \<and>
      value cherry \<in> value ` set cur1 \<and>
      value cherry \<notin> value ` set cur2 \<and>
      cur1 = [apple] @ [cherry] \<and> cur2 = [apple] \<and>
      set (map value cur2) = set (map value [apple])"
    by blast
  then have ex: "\<exists>cur1 cur2.
      snd (handleSelect example_props ?s cherry) = [Value (Multi cur1)] \<and>
      snd (handleSelect example_props ?s' cherry) = [Value (Multi cur2)] \<and>
      value cherry \<in> value ` set cur1 \<and>
      value cherry \<notin> value ` set cur2 \<and>
      cur1 = [apple] @ [cherry] \<and> cur2 = [apple] \<and>
      set (map value cur2) = set (map value [apple])"
    by (intro exI)
  from m c nd h1 c' h2 h3 ex show ?thesis by (intro conjI)
qed

section \<open>The component: the highlight after the options change\<close>

text \<open>
  Claim C3. The arrow keys do not always move to the next or previous non-disabled
  option, because the highlight is not reset when the filtered options change: the
  effect of \<^verbatim>\<open>useKeyboardNavigation\<close> depends on \<^verbatim>\<open>[isOpen]\<close> only, although its comment
  says the highlight is reset when the options change. The list is opened, the query
  \<open>e\<close> leaves Apple and Cherry, two ArrowDown keys highlight Cherry at index 1, and
  the query is emptied again. The highlight is still 1, which now is the disabled
  Banana; the next non-disabled option in list order is Cherry at index 2 and the
  previous one is Apple at index 0, but ArrowDown moves the highlight to 0 and ArrowUp
  moves it to 2.
\<close>

theorem arrow_keys_after_options_change:
  "exec (initial_state True)
     [(example_props, TriggerClick), (example_props, SearchChange ''e''),
      (example_props, KeyDown ''ArrowDown''), (example_props, KeyDown ''ArrowDown'')]
     = Inr \<lparr>isOpen = True, searchQuery = ''e'', internalValue = Value (Multi []),
             highlightedIndex = 1\<rparr> \<and>
   filteredOptions example_props
     \<lparr>isOpen = True, searchQuery = ''e'', internalValue = Value (Multi []),
      highlightedIndex = 1\<rparr> = [apple, cherry] \<and>
   exec (initial_state True)
     [(example_props, TriggerClick), (example_props, SearchChange ''e''),
      (example_props, KeyDown ''ArrowDown''), (example_props, KeyDown ''ArrowDown''),
      (example_props, SearchChange [])]
     = Inr \<lparr>isOpen = True, searchQuery = [], internalValue = Value (Multi []),
             highlightedIndex = 1\<rparr> \<and>
   filteredOptions example_props
     \<lparr>isOpen = True, searchQuery = [], internalValue = Value (Multi []),
      highlightedIndex = 1\<rparr> = [apple, banana, cherry] \<and>
   distinct [apple, banana, cherry] \<and>
   enabled_at [apple, banana, cherry] 0 \<and>
   \<not> enabled_at [apple, banana, cherry] 1 \<and>
   enabled_at [apple, banana, cherry] 2 \<and>
   step example_props
     \<lparr>isOpen = True, searchQuery = [], internalValue = Value (Multi []),
      highlightedIndex = 1\<rparr> (KeyDown ''ArrowDown'')
     = Inr (\<lparr>isOpen = True, searchQuery = [], internalValue = Value (Multi []),
              highlightedIndex = 0\<rparr>, []) \<and>
   step example_props
     \<lparr>isOpen = True, searchQuery = [], internalValue = Value (Multi []),
      highlightedIndex = 1\<rparr> (KeyDown ''ArrowUp'')
     = Inr (\<lparr>isOpen = True, searchQuery = [], internalValue = Value (Multi []),
              highlightedIndex = 2\<rparr>, [])"
  by code_simp

end
